theory Spec2Isabelle
  imports Complex_Main
begin

section \<open>Strings and numbers as the TypeScript code uses them\<close>

text \<open>
  Pitch numbers are the integers produced by \<^verbatim>\<open>Math.round\<close> in \<^verbatim>\<open>freqToMidi\<close>; they are
  modelled as \<open>int\<close>, silence (\<^verbatim>\<open>null\<close>) as \<open>None\<close>. Durations and counters are natural
  numbers. Tokens are strings, exactly as in \<^verbatim>\<open>melRes\<close>, \<^verbatim>\<open>harRes\<close> and the live buffers.
\<close>

text \<open>The remainder operator \<^verbatim>\<open>%\<close> of JavaScript truncates towards zero: the sign of the
  result is the sign of the dividend.\<close>

definition jsRem :: "int \<Rightarrow> int \<Rightarrow> int" where
  "jsRem a b = (if a < 0 then - ((- a) mod \<bar>b\<bar>) else a mod \<bar>b\<bar>)"

definition digitChar :: "nat \<Rightarrow> char" where
  "digitChar n = ''0123456789'' ! n"

text \<open>\<^verbatim>\<open>d.toString()\<close> for a non-negative integer.\<close>

fun decimal :: "nat \<Rightarrow> string" where
  "decimal n = (if n < 10 then [digitChar n] else decimal (n div 10) @ [digitChar (n mod 10)])"

declare decimal.simps [simp del]

definition isDigit :: "char \<Rightarrow> bool" where
  "isDigit c = (c \<in> set ''0123456789'')"

text \<open>The value of a digit is its place in the digit string; other characters count 0.\<close>

definition digitVal :: "char \<Rightarrow> nat" where
  "digitVal c =
     (let k = length (takeWhile (\<lambda>d. d \<noteq> c) ''0123456789'') in if k < 10 then k else 0)"

text \<open>\<^verbatim>\<open>s.match(/\d+$/)\<close>: the longest run of digits that ends the string (empty when the
  match fails), and \<^verbatim>\<open>parseInt\<close> of such a run.\<close>

definition trailingDigits :: "string \<Rightarrow> string" where
  "trailingDigits s = rev (takeWhile isDigit (rev s))"

definition parseInt :: "string \<Rightarrow> nat" where
  "parseInt ds = foldl (\<lambda>a c. 10 * a + digitVal c) 0 ds"

definition lowerChar :: "char \<Rightarrow> char" where
  "lowerChar c =
     (case map_of (zip ''ABCDEFGHIJKLMNOPQRSTUVWXYZ'' ''abcdefghijklmnopqrstuvwxyz'') c of
        Some l \<Rightarrow> l
      | None \<Rightarrow> c)"

definition toLowerCase :: "string \<Rightarrow> string" where
  "toLowerCase s = map lowerChar s"

definition startsWith :: "string \<Rightarrow> string \<Rightarrow> bool" where
  "startsWith s p = (take (length p) s = p)"


section \<open>audio-utils: midiToAbc\<close>

definition notesAbc :: "string list" where
  "notesAbc = [''C'', ''^C'', ''D'', ''^D'', ''E'', ''F'', ''^F'', ''G'', ''^G'', ''A'', ''^A'', ''B'']"

text \<open>
  \<^verbatim>\<open>midiToAbc\<close> on a finite integer (the guard for \<^verbatim>\<open>null\<close>, \<^verbatim>\<open>NaN\<close> and non-numbers never
  fires on the integers modelled here). The pitch is clamped to 0..127 first.
\<close>

definition midiToAbc :: "int \<Rightarrow> string" where
  "midiToAbc midi =
     (let safeMidi = max 0 (min 127 midi);
          noteIndex = nat (safeMidi mod 12);
          octave = safeMidi div 12 - 1;
          noteName = (if noteIndex < length notesAbc then notesAbc ! noteIndex else ''C'')
      in if octave = 4 then noteName
         else if octave < 4 then
           noteName @ replicate (nat (max 0 (min 10 (4 - octave)))) (CHR '','')
         else
           (let prefix = toLowerCase noteName;
                suffix = replicate (nat (max 0 (min 10 (octave - 5)))) (CHR 0x27)
            in if octave = 5 then prefix else prefix @ suffix))"


section \<open>Register folding\<close>

text \<open>The range lock of the melody:
  \<^verbatim>\<open>while (midi < 48) midi += 12; while (midi > 84) midi -= 12;\<close>\<close>

function lockUp :: "int \<Rightarrow> int" where
  "lockUp midi = (if midi < 48 then lockUp (midi + 12) else midi)"
  by pat_completeness auto
termination
  by (relation "measure (\<lambda>m. nat (48 - m))") auto

function lockDown :: "int \<Rightarrow> int" where
  "lockDown midi = (if midi > 84 then lockDown (midi - 12) else midi)"
  by pat_completeness auto
termination
  by (relation "measure (\<lambda>m. nat (m - 84))") auto

declare lockUp.simps [simp del] lockDown.simps [simp del]

definition rangeLock :: "int \<Rightarrow> int" where
  "rangeLock midi = lockDown (lockUp midi)"

text \<open>The harmony line:
  \<^verbatim>\<open>let hMidi = note - 12; while (hMidi > 55) hMidi -= 12; while (hMidi < 36) hMidi += 12;\<close>\<close>

function harDown :: "int \<Rightarrow> int" where
  "harDown h = (if h > 55 then harDown (h - 12) else h)"
  by pat_completeness auto
termination
  by (relation "measure (\<lambda>h. nat (h - 55))") auto

function harUp :: "int \<Rightarrow> int" where
  "harUp h = (if h < 36 then harUp (h + 12) else h)"
  by pat_completeness auto
termination
  by (relation "measure (\<lambda>h. nat (36 - h))") auto

declare harDown.simps [simp del] harUp.simps [simp del]

definition hMidi :: "int \<Rightarrow> int" where
  "hMidi note = harUp (harDown (note - 12))"


section \<open>The offline encoder of quantizeMelody\<close>

text \<open>\<^verbatim>\<open>getDurStr\<close>, with the branches in the order of the source.\<close>

definition getDurStr :: "nat \<Rightarrow> nat \<Rightarrow> string" where
  "getDurStr qValue d =
     (if qValue = 8 then (if d = 1 then [] else decimal d)
      else if qValue = 16 then
        (if d mod 2 = 0 then (let eights = d div 2 in if eights = 1 then [] else decimal eights)
         else (if d = 1 then ''/2'' else decimal d @ ''/2''))
      else if qValue = 4 then decimal (d * 2)
      else decimal d)"

text \<open>The duration table in the words of the specification, for the three grid
  resolutions it names.\<close>

definition durationStr8 :: "nat \<Rightarrow> string" where
  "durationStr8 d = (if d = 1 then [] else decimal d)"

definition durationStr16 :: "nat \<Rightarrow> string" where
  "durationStr16 d =
     (if even d then (if d div 2 = 1 then [] else decimal (d div 2))
      else if d = 1 then ''/2'' else decimal d @ ''/2'')"

definition durationStr4 :: "nat \<Rightarrow> string" where
  "durationStr4 d = decimal (2 * d)"

record enc_state =
  melRes :: "string list"
  harRes :: "string list"
  lastNote :: "int option"
  duration :: nat

definition safeAbc :: "string \<Rightarrow> string" where
  "safeAbc abc = (if abc \<noteq> [] \<and> abc \<noteq> ''undefined'' then abc else ''z'')"

definition pushNote :: "nat \<Rightarrow> int option \<Rightarrow> nat \<Rightarrow> enc_state \<Rightarrow> enc_state" where
  "pushNote qValue note dur st =
     (if dur = 0 then st
      else
        (let durStr = getDurStr qValue dur in
         case note of
           Some n \<Rightarrow>
             st\<lparr>melRes := melRes st @ [safeAbc (midiToAbc n) @ durStr],
                harRes := harRes st @ [safeAbc (midiToAbc (hMidi n)) @ durStr]\<rparr>
         | None \<Rightarrow>
             st\<lparr>melRes := melRes st @ [''z'' @ durStr],
                harRes := harRes st @ [''z'' @ durStr]\<rparr>))"

text \<open>The bar check at the head of the loop body:
  \<^verbatim>\<open>if (i > 0 && i % barLimit === 0) { flush; push "|" }\<close>.
  (\<^verbatim>\<open>i % 0\<close> is \<^verbatim>\<open>NaN\<close>, never 0; \<open>i mod 0 = i\<close> is not 0 either when \<open>i > 0\<close>.)\<close>

definition barCheck :: "nat \<Rightarrow> nat \<Rightarrow> enc_state \<Rightarrow> enc_state" where
  "barCheck qValue i st =
     (if i > 0 \<and> i mod qValue = 0 then
        (let st1 = (if duration st > 0
                    then (pushNote qValue (lastNote st) (duration st) st)
                           \<lparr>lastNote := None, duration := 0\<rparr>
                    else st)
         in st1\<lparr>melRes := melRes st1 @ [''|''], harRes := harRes st1 @ [''|'']\<rparr>)
      else st)"

definition consume :: "nat \<Rightarrow> int option \<Rightarrow> enc_state \<Rightarrow> enc_state" where
  "consume qValue note st =
     (if duration st = 0 then st\<lparr>lastNote := note, duration := 1\<rparr>
      else if note = lastNote st then st\<lparr>duration := duration st + 1\<rparr>
      else (pushNote qValue (lastNote st) (duration st) st)\<lparr>lastNote := note, duration := 1\<rparr>)"

text \<open>The loop \<^verbatim>\<open>for (let i = 0; i < gridNotes.length; i++)\<close>, from index \<open>i\<close> over the
  cells that remain.\<close>

fun encodeFrom :: "nat \<Rightarrow> nat \<Rightarrow> int option list \<Rightarrow> enc_state \<Rightarrow> enc_state" where
  "encodeFrom qValue i [] st = st"
| "encodeFrom qValue i (note # rest) st =
     encodeFrom qValue (i + 1) rest (consume qValue note (barCheck qValue i st))"

definition encInit :: enc_state where
  "encInit = \<lparr>melRes = [], harRes = [], lastNote = None, duration = 0\<rparr>"

definition encodeGrid :: "nat \<Rightarrow> int option list \<Rightarrow> string list \<times> string list" where
  "encodeGrid qValue gridNotes =
     (let st = encodeFrom qValue 0 gridNotes encInit;
          st' = (if duration st > 0 then pushNote qValue (lastNote st) (duration st) st else st)
      in (melRes st', harRes st'))"


section \<open>audio-utils: detectKey and snapToScale\<close>

definition majorIntervals :: "int list" where
  "majorIntervals = [0, 2, 4, 5, 7, 9, 11]"

definition nameMap :: "string list" where
  "nameMap = [''C'', ''Db'', ''D'', ''Eb'', ''E'', ''F'', ''Gb'', ''G'', ''Ab'', ''A'', ''Bb'', ''B'']"

text \<open>The scale built for one candidate root, and \<^verbatim>\<open>chromas.filter(c => scale.includes(c)).length\<close>.\<close>

definition rootScale :: "nat \<Rightarrow> int list" where
  "rootScale rootN = map (\<lambda>i. jsRem (int rootN + i) 12) majorIntervals"

definition matchCount :: "int list \<Rightarrow> nat \<Rightarrow> int" where
  "matchCount chromas rootN = int (length (filter (\<lambda>c. c \<in> set (rootScale rootN)) chromas))"

text \<open>The loop \<^verbatim>\<open>for (let root = 0; root < 12; root++)\<close> over the roots that remain, with
  the pair \<^verbatim>\<open>(bestKey, maxMatch)\<close> (\<open>rootN\<close> is the source's \<^verbatim>\<open>root\<close>).\<close>

fun keyLoop :: "int list \<Rightarrow> nat list \<Rightarrow> string \<times> int \<Rightarrow> string \<times> int" where
  "keyLoop chromas [] acc = acc"
| "keyLoop chromas (rootN # roots) (bestKey, maxMatch) =
     (let matches = matchCount chromas rootN
      in if matches > maxMatch then keyLoop chromas roots (nameMap ! rootN, matches)
         else keyLoop chromas roots (bestKey, maxMatch))"

definition detectKey :: "int list \<Rightarrow> string" where
  "detectKey midiNotes =
     (if length midiNotes < 5 then ''C''
      else fst (keyLoop (map (\<lambda>m. jsRem m 12) midiNotes) [0..<12] (''C'', -1)))"

definition rootMap :: "(string \<times> int) list" where
  "rootMap = [(''C'', 0), (''Db'', 1), (''D'', 2), (''Eb'', 3), (''E'', 4), (''F'', 5),
              (''Gb'', 6), (''G'', 7), (''Ab'', 8), (''A'', 9), (''Bb'', 10), (''B'', 11)]"

definition majorScaleOffsets :: "(string \<times> int list) list" where
  "majorScaleOffsets =
     [(''C'', [0, 2, 4, 5, 7, 9, 11]), (''G'', [0, 2, 4, 5, 7, 9, 11]),
      (''D'', [0, 2, 4, 5, 7, 9, 11]), (''F'', [0, 2, 4, 5, 7, 9, 11]),
      (''Bb'', [0, 2, 4, 5, 7, 9, 11]), (''A'', [0, 2, 4, 5, 7, 9, 11]),
      (''E'', [0, 2, 4, 5, 7, 9, 11]), (''Eb'', [0, 2, 4, 5, 7, 9, 11])]"

text \<open>
  \<^verbatim>\<open>rootMap[key] || 0\<close> and \<^verbatim>\<open>majorScaleOffsets[key] || majorScaleOffsets['C']\<close>: a key
  that is not in a table falls back to root 0 and to the intervals of C. The tables are
  read as own properties only; a key that names a property of \<^verbatim>\<open>Object.prototype\<close> is
  outside the model (\<^verbatim>\<open>detectKey\<close> never produces one).
\<close>

definition keyRoot :: "string \<Rightarrow> int" where
  "keyRoot key = (case map_of rootMap key of Some r \<Rightarrow> (if r \<noteq> 0 then r else 0) | None \<Rightarrow> 0)"

definition keyIntervals :: "string \<Rightarrow> int list" where
  "keyIntervals key =
     (case map_of majorScaleOffsets key of
        Some iv \<Rightarrow> iv
      | None \<Rightarrow> (case map_of majorScaleOffsets ''C'' of Some iv \<Rightarrow> iv | None \<Rightarrow> []))"

definition keyScale :: "string \<Rightarrow> int list" where
  "keyScale key = map (\<lambda>i. jsRem (keyRoot key + i) 12) (keyIntervals key)"

text \<open>The loop \<^verbatim>\<open>for (const s of scale)\<close> with the pair \<^verbatim>\<open>(bestNote, minDiff)\<close>;
  \<^verbatim>\<open>Math.floor(midi / 12)\<close> is \<open>midi div 12\<close> on the integers.\<close>

fun snapLoop :: "int \<Rightarrow> int \<Rightarrow> int list \<Rightarrow> int \<times> int \<Rightarrow> int \<times> int" where
  "snapLoop midi chroma [] acc = acc"
| "snapLoop midi chroma (s # ss) (bestNote, minDiff) =
     (let diff0 = \<bar>chroma - s\<bar>;
          diff = (if diff0 > 6 then 12 - diff0 else diff0)
      in if diff < minDiff then snapLoop midi chroma ss (midi div 12 * 12 + s, diff)
         else snapLoop midi chroma ss (bestNote, minDiff))"

definition snapToScale :: "int \<Rightarrow> string \<Rightarrow> int" where
  "snapToScale midi key =
     (let scale = keyScale key;
          chroma = jsRem midi 12
      in if chroma \<in> set scale then midi
         else fst (snapLoop midi chroma scale (midi, 13)))"

text \<open>The circular distance in the words of the specification:
  \<^verbatim>\<open>d = |a - b|; if d > 6 then d = 12 - d\<close>.\<close>

definition circDist :: "int \<Rightarrow> int \<Rightarrow> int" where
  "circDist a b = (let d = \<bar>a - b\<bar> in if d > 6 then 12 - d else d)"


section \<open>The offline quantizer: bucketing, gap filling, tail extension\<close>

text \<open>
  The record \<^verbatim>\<open>counts\<close> is an association list in insertion order;
  \<^verbatim>\<open>counts[n] = (counts[n] || 0) + 1\<close> is \<open>bump\<close>.
\<close>

fun bump :: "(int \<times> nat) list \<Rightarrow> int \<Rightarrow> (int \<times> nat) list" where
  "bump [] n = [(n, 1)]"
| "bump ((k, c) # kvs) n = (if k = n then (k, c + 1) # kvs else (k, c) # bump kvs n)"

text \<open>\<^verbatim>\<open>chunk.forEach\<close>, with the pair \<^verbatim>\<open>(nullCount, counts)\<close>.\<close>

fun tally :: "int option list \<Rightarrow> nat \<times> (int \<times> nat) list \<Rightarrow> nat \<times> (int \<times> nat) list" where
  "tally [] acc = acc"
| "tally (None # ns) (nullCount, counts) = tally ns (nullCount + 1, counts)"
| "tally (Some n # ns) (nullCount, counts) = tally ns (nullCount, bump counts n)"

text \<open>
  \<^verbatim>\<open>Object.entries\<close> lists the keys that are array indices (0 .. 2^32 - 2) first, in
  ascending order, and the other keys after them in insertion order.
\<close>

definition isArrayIndex :: "int \<Rightarrow> bool" where
  "isArrayIndex k = (0 \<le> k \<and> k < 4294967295)"

definition objectEntries :: "(int \<times> nat) list \<Rightarrow> (int \<times> nat) list" where
  "objectEntries kvs =
     sort_key fst (filter (\<lambda>e. isArrayIndex (fst e)) kvs) @ filter (\<lambda>e. \<not> isArrayIndex (fst e)) kvs"

text \<open>The vote: \<^verbatim>\<open>for (const [note, count] of Object.entries(counts))\<close> with the pair
  \<^verbatim>\<open>(bestNote, maxCount)\<close>.\<close>

fun bestLoop :: "(int \<times> nat) list \<Rightarrow> int \<times> int \<Rightarrow> int \<times> int" where
  "bestLoop [] acc = acc"
| "bestLoop ((note, count) # es) (bestNote, maxCount) =
     (if int count > maxCount then bestLoop es (note, int count)
      else bestLoop es (bestNote, maxCount))"

text \<open>
  The two floating-point computations of the quantizer, read over the reals: the silence
  test \<^verbatim>\<open>nullCount / chunk.length > 0.2 + sensitivity * 0.6\<close> and
  \<^verbatim>\<open>Math.max(1, Math.round(sampleRate * (2.0 / qValue) / sliceSize))\<close>. The grid functions
  below take the outcome of the silence test as a parameter \<open>silent\<close> (null count, chunk
  length) and the number of slices per cell as a parameter, so that what is proved about
  them holds whatever the rounding of these two computations is.
\<close>

definition isSilent :: "real \<Rightarrow> nat \<Rightarrow> nat \<Rightarrow> bool" where
  "isSilent sensitivity nullCount chunkLength =
     (let silenceThreshold = 0.2 + sensitivity * 0.6;
          nullRatio = real nullCount / real chunkLength
      in nullRatio > silenceThreshold)"

definition slicesPerGrid :: "real \<Rightarrow> real \<Rightarrow> nat \<Rightarrow> nat" where
  "slicesPerGrid sampleRate sliceSize qValue =
     (let secondsPerGrid = 2 / real qValue;
          samplesPerGrid = sampleRate * secondsPerGrid
      in nat (max 1 (round (samplesPerGrid / sliceSize))))"

definition gridCell :: "(nat \<Rightarrow> nat \<Rightarrow> bool) \<Rightarrow> string \<Rightarrow> int option list \<Rightarrow> int option" where
  "gridCell silent key chunk =
     (let (nullCount, counts) = tally chunk (0, [])
      in if silent nullCount (length chunk) then None
         else
           (let bestNote = fst (bestLoop (objectEntries counts) (-1, -1))
            in if bestNote \<noteq> -1 then Some (snapToScale bestNote key) else None))"

text \<open>The loop \<^verbatim>\<open>for (let i = 0; i < rawNotes.length; i += slicesPerGrid)\<close> over the slices
  from \<open>i\<close> on; the number of slices per cell is at least 1 by \<^verbatim>\<open>Math.max\<close>.\<close>

function buckets :: "(nat \<Rightarrow> nat \<Rightarrow> bool) \<Rightarrow> string \<Rightarrow> nat \<Rightarrow> int option list \<Rightarrow> int option list" where
  "buckets silent key spg rawNotes =
     (if rawNotes = [] then []
      else gridCell silent key (take (max 1 spg) rawNotes)
             # buckets silent key spg (drop (max 1 spg) rawNotes))"
  by pat_completeness auto
termination
  by (relation "measure (\<lambda>(silent, key, spg, rawNotes). length rawNotes)") auto

declare buckets.simps [simp del]

text \<open>Gap filling, in place, for \<open>i\<close> from 1 while \<^verbatim>\<open>i < gridNotes.length - 1\<close>.\<close>

definition fillAt :: "nat \<Rightarrow> int option list \<Rightarrow> int option list" where
  "fillAt i gridNotes =
     (let prev = gridNotes ! (i - 1);
          curr = gridNotes ! i;
          next = gridNotes ! (i + 1)
      in if curr = None \<and> prev \<noteq> None \<and> next \<noteq> None then
           (if prev = next then gridNotes[i := prev] else gridNotes[i := prev])
         else gridNotes)"

function gapFillFrom :: "nat \<Rightarrow> int option list \<Rightarrow> int option list" where
  "gapFillFrom i gridNotes =
     (if i + 1 < length gridNotes then gapFillFrom (i + 1) (fillAt i gridNotes) else gridNotes)"
  by pat_completeness auto
termination
  by (relation "measure (\<lambda>(i, gridNotes). length gridNotes - i)") (auto simp: fillAt_def Let_def)

declare gapFillFrom.simps [simp del]

definition gapFill :: "int option list \<Rightarrow> int option list" where
  "gapFill gridNotes = gapFillFrom 1 gridNotes"

text \<open>Tail extension. The inner loop
  \<^verbatim>\<open>while (j < gridNotes.length && gridNotes[j] === pitch) { run++; j++; }\<close>
  with the pair \<^verbatim>\<open>(run, j)\<close>.\<close>

function runLoop :: "int option list \<Rightarrow> int option \<Rightarrow> nat \<times> nat \<Rightarrow> nat \<times> nat" where
  "runLoop gridNotes pitch (run, j) =
     (if j < length gridNotes \<and> gridNotes ! j = pitch
      then runLoop gridNotes pitch (run + 1, j + 1) else (run, j))"
  by pat_completeness auto
termination
  by (relation "measure (\<lambda>(gridNotes, pitch, run, j). length gridNotes - j)") auto

declare runLoop.simps [simp del]

text \<open>One turn of the outer loop at a non-silent cell \<open>i\<close>: the grid after the turn and the
  next value of \<open>i\<close>.\<close>

definition tailStep :: "nat \<Rightarrow> int option list \<Rightarrow> int option list \<times> nat" where
  "tailStep i gridNotes =
     (let pitch = gridNotes ! i;
          (run, j) = runLoop gridNotes pitch (0, i)
      in if j < length gridNotes \<and> gridNotes ! j = None
            \<and> (run = 3 \<or> run = 7 \<or> run = 15)
         then (gridNotes[j := pitch], j)
         else (gridNotes, j))"


lemma runLoop_props:
  "runLoop g p (run, j) = (run', j') \<Longrightarrow> j \<le> j' \<and> run' + j = run + j' \<and> (j \<le> length g \<longrightarrow> j' \<le> length g)"
proof (induction g p "(run, j)" arbitrary: run j rule: runLoop.induct)
  case (1 g p run j)
  show ?case
  proof (cases "j < length g \<and> g ! j = p")
    case True
    with 1(2) have "runLoop g p (run + 1, j + 1) = (run', j')"
      by (subst (asm) runLoop.simps) simp
    with 1(1) True show ?thesis by fastforce
  next
    case False
    with 1(2) show ?thesis by (subst (asm) runLoop.simps) auto
  qed
qed

lemma runLoop_step:
  "j < length g \<Longrightarrow> g ! j = p \<Longrightarrow> runLoop g p (run, j) = runLoop g p (run + 1, j + 1)"
  by (subst runLoop.simps) simp

lemma runLoop_gt:
  assumes "i < length g" and "runLoop g (g ! i) (0, i) = (run, j)"
  shows "i < j \<and> j \<le> length g \<and> run = j - i"
proof -
  from assms have "runLoop g (g ! i) (1, i + 1) = (run, j)"
    by (simp add: runLoop_step)
  from runLoop_props [OF this] assms(1) show ?thesis by auto
qed

lemma tailStep_props:
  assumes "i < length g" and "tailStep i g = (g', j)"
  shows "i < j \<and> j \<le> length g \<and> length g' = length g"
proof -
  obtain run j0 where r: "runLoop g (g ! i) (0, i) = (run, j0)" by (cases "runLoop g (g ! i) (0, i)")
  from runLoop_gt [OF assms(1) r] assms(2) r show ?thesis
    by (auto simp: tailStep_def Let_def split: if_splits)
qed

text \<open>The outer loop \<^verbatim>\<open>while (i < gridNotes.length)\<close>. It terminates because the inner
  loop always passes the cell it starts from.\<close>

function tailFrom :: "nat \<Rightarrow> int option list \<Rightarrow> int option list" where
  "tailFrom i gridNotes =
     (if i < length gridNotes then
        (if gridNotes ! i \<noteq> None then (case tailStep i gridNotes of (g', j) \<Rightarrow> tailFrom j g')
         else tailFrom (i + 1) gridNotes)
      else gridNotes)"
  by pat_completeness auto
termination
proof (relation "measure (\<lambda>(i, gridNotes). length gridNotes - i)", goal_cases)
  case 1
  then show ?case by simp
next
  case (2 i gridNotes x1 x2)
  then show ?case using tailStep_props [of i gridNotes x1 x2] by auto
next
  case (3 i gridNotes)
  then show ?case by auto
qed

declare tailFrom.simps [simp del]

definition tailExtension :: "int option list \<Rightarrow> int option list" where
  "tailExtension gridNotes = tailFrom 0 gridNotes"


section \<open>analyzeFile: the raw slice sequence\<close>

text \<open>
  One slice of \<^verbatim>\<open>analyzeFile\<close>: the estimator's frequency and clarity, and the pitch number
  \<^verbatim>\<open>freqToMidi\<close> gives for the frequency (a floating-point logarithm, taken as a parameter).
  The comparisons of the source are comparisons of the values, without rounding.
\<close>

definition rawSlice :: "real \<Rightarrow> (real \<Rightarrow> int) \<Rightarrow> real \<times> real \<Rightarrow> int option" where
  "rawSlice baseClarity freqToMidi frame =
     (let (pitch, clarity) = frame
      in if pitch < 85 \<or> pitch > 1200 then None
         else if clarity > baseClarity then Some (rangeLock (freqToMidi pitch))
         else None)"

definition quantizeGrid ::
  "(nat \<Rightarrow> nat \<Rightarrow> bool) \<Rightarrow> string \<Rightarrow> nat \<Rightarrow> int option list \<Rightarrow> int option list" where
  "quantizeGrid silent key spg rawNotes = tailExtension (gapFill (buckets silent key spg rawNotes))"

definition quantizeWith ::
  "(nat \<Rightarrow> nat \<Rightarrow> bool) \<Rightarrow> string \<Rightarrow> nat \<Rightarrow> nat \<Rightarrow> int option list \<Rightarrow> string list \<times> string list" where
  "quantizeWith silent key spg qValue rawNotes =
     encodeGrid qValue (quantizeGrid silent key spg rawNotes)"

text \<open>\<^verbatim>\<open>quantizeMelody\<close> with the arguments of the source, the two floating-point
  computations read over the reals; the result is the pair \<^verbatim>\<open>(melody, harmony)\<close>.\<close>

definition quantizeMelody ::
  "int option list \<Rightarrow> real \<Rightarrow> real \<Rightarrow> string \<Rightarrow> nat \<Rightarrow> real \<Rightarrow> string list \<times> string list" where
  "quantizeMelody rawNotes sampleRate sliceSize key qValue sensitivity =
     quantizeWith (isSilent sensitivity) key (slicesPerGrid sampleRate sliceSize qValue)
       qValue rawNotes"


section \<open>The real-time stabilizer (buffer-synced variant of updatePitch)\<close>

record rt_state =
  lastMidi :: "int option"
  stableFrames :: nat
  isContinuous :: bool
  gridUnitsFilled :: nat
  melodyBuffer :: "string list"
  harmonyBuffer :: "string list"
  liveMidi :: "int list"

definition rtInit :: rt_state where
  "rtInit = \<lparr>lastMidi = None, stableFrames = 0, isContinuous = False, gridUnitsFilled = 0,
             melodyBuffer = [], harmonyBuffer = [], liveMidi = []\<rparr>"

text \<open>\<^verbatim>\<open>const match = item.match(/\d+$/); let dur = match ? parseInt(match[0]) : 1; dur++;\<close>\<close>

definition extendDur :: "string \<Rightarrow> nat" where
  "extendDur item = (let m = trailingDigits item in (if m \<noteq> [] then parseInt m else 1) + 1)"

text \<open>
  The block under \<^verbatim>\<open>if (stableFrames === 6)\<close>. When the merge branch reads
  \<^verbatim>\<open>har[lastIdx]\<close> beyond the harmony buffer, \<^verbatim>\<open>hLast.match\<close> throws; the \<^verbatim>\<open>catch\<close> of the
  loop keeps what was written before the throw (the counter and the melody token).
\<close>

definition confirm :: "nat \<Rightarrow> int \<Rightarrow> rt_state \<Rightarrow> rt_state" where
  "confirm qValue midi st =
     (let abc = midiToAbc midi;
          hAbc = midiToAbc (hMidi midi);
          mel = melodyBuffer st;
          har = harmonyBuffer st;
          shouldMerge = (isContinuous st \<and> mel \<noteq> [] \<and> last mel \<noteq> [] \<and> last mel \<noteq> ''|''
                           \<and> startsWith (last mel) abc);
          units = gridUnitsFilled st + 1;
          insertBar = (units \<ge> qValue);
          units' = (if insertBar then 0 else units);
          bar = (if insertBar then [''|''] else [])
      in if shouldMerge then
           (let lastIdx = length mel - 1;
                mel1 = mel[lastIdx := abc @ decimal (extendDur (last mel))]
            in if lastIdx < length har then
                 (let har1 = har[lastIdx := hAbc @ decimal (extendDur (har ! lastIdx))]
                  in st\<lparr>gridUnitsFilled := units', melodyBuffer := mel1 @ bar,
                        harmonyBuffer := har1 @ bar, isContinuous := True, stableFrames := 0\<rparr>)
               else st\<lparr>gridUnitsFilled := units', melodyBuffer := mel1\<rparr>)
         else
           st\<lparr>gridUnitsFilled := units', melodyBuffer := mel @ [abc] @ bar,
              harmonyBuffer := har @ [hAbc] @ bar, liveMidi := liveMidi st @ [midi],
              isContinuous := True, stableFrames := 0\<rparr>)"

text \<open>One frame of the loop: \<open>frame\<close> is the estimator's (frequency, clarity).\<close>

definition updatePitch ::
  "nat \<Rightarrow> real \<Rightarrow> (real \<Rightarrow> int) \<Rightarrow> real \<times> real \<Rightarrow> rt_state \<Rightarrow> rt_state" where
  "updatePitch qValue baseClarity freqToMidi frame st =
     (let (pitch, clarity) = frame
      in if pitch < 85 \<or> pitch > 1200 \<or> clarity < baseClarity then
           st\<lparr>lastMidi := None, stableFrames := 0, isContinuous := False\<rparr>
         else
           (let midi = rangeLock (freqToMidi pitch)
            in if Some midi = lastMidi st then
                 (let st1 = st\<lparr>stableFrames := stableFrames st + 1\<rparr>
                  in if stableFrames st1 = 6 then confirm qValue midi st1 else st1)
               else st\<lparr>lastMidi := Some midi, stableFrames := 0, isContinuous := False\<rparr>))"

text \<open>
  \<^verbatim>\<open>freqToMidi\<close> at the two frequencies the tests of the repository fix
  (\<^verbatim>\<open>freqToMidi(440)\<close> is 69, \<^verbatim>\<open>freqToMidi(261.63)\<close> is 60), to run the stabilizer on
  concrete frames; no statement depends on its value elsewhere.
\<close>

definition freqToMidiTested :: "real \<Rightarrow> int" where
  "freqToMidiTested frequency = (if frequency = 440 then 69 else if frequency = 261.63 then 60 else 0)"

text \<open>A recording session: the frames in order, from the state \<^verbatim>\<open>startRecording\<close> sets up.\<close>

definition runFrames ::
  "nat \<Rightarrow> real \<Rightarrow> (real \<Rightarrow> int) \<Rightarrow> (real \<times> real) list \<Rightarrow> rt_state" where
  "runFrames qValue baseClarity freqToMidi frames =
     foldl (\<lambda>st frame. updatePitch qValue baseClarity freqToMidi frame st) rtInit frames"

text \<open>Bar markers and rests of the two token sequences stand at the same places.\<close>

definition isRest :: "string \<Rightarrow> bool" where
  "isRest tok = startsWith tok ''z''"

definition tokAligned :: "string \<Rightarrow> string \<Rightarrow> bool" where
  "tokAligned m h = (((m = ''|'') = (h = ''|'')) \<and> (isRest m = isRest h))"

definition aligned :: "string list \<Rightarrow> string list \<Rightarrow> bool" where
  "aligned mel har = list_all2 tokAligned mel har"


section \<open>The encoder as a sequence of events\<close>

text \<open>
  What the encoder emits, before it is written as text: a run of \<open>d\<close> cells of one pitch
  (or of silence), or a bar marker. \<open>melTok\<close> and \<open>harTok\<close> are the two strings
  \<^verbatim>\<open>pushNote\<close> writes for a run, and \<^verbatim>\<open>"|"\<close> for a marker.
\<close>

datatype event = Ev "int option" nat | Bar

fun melTok :: "nat \<Rightarrow> event \<Rightarrow> string" where
  "melTok qValue (Ev (Some n) d) = safeAbc (midiToAbc n) @ getDurStr qValue d"
| "melTok qValue (Ev None d) = ''z'' @ getDurStr qValue d"
| "melTok qValue Bar = ''|''"

fun harTok :: "nat \<Rightarrow> event \<Rightarrow> string" where
  "harTok qValue (Ev (Some n) d) = safeAbc (midiToAbc (hMidi n)) @ getDurStr qValue d"
| "harTok qValue (Ev None d) = ''z'' @ getDurStr qValue d"
| "harTok qValue Bar = ''|''"

text \<open>
  The bars of the specification: the grid cut into consecutive bars of \<open>qValue\<close> cells
  (the last one may be shorter), each bar run-length encoded, and one marker between two
  consecutive bars.
\<close>

function runs :: "'a list \<Rightarrow> ('a \<times> nat) list" where
  "runs [] = []"
| "runs (x # xs) = (x, Suc (length (takeWhile ((=) x) xs))) # runs (dropWhile ((=) x) xs)"
  by pat_completeness auto
termination
  by (relation "measure length") (auto simp: length_dropWhile_le less_Suc_eq_le)

function barsOf :: "nat \<Rightarrow> 'a list \<Rightarrow> 'a list list" where
  "barsOf qValue g =
     (if qValue = 0 \<or> g = [] then [] else take qValue g # barsOf qValue (drop qValue g))"
  by pat_completeness auto
termination
  by (relation "measure (\<lambda>(qValue, g). length g)") auto

declare barsOf.simps [simp del]

fun joinBars :: "event list list \<Rightarrow> event list" where
  "joinBars [] = []"
| "joinBars [b] = b"
| "joinBars (b # bs) = b @ [Bar] @ joinBars bs"

definition barEvents :: "nat \<Rightarrow> int option list \<Rightarrow> event list" where
  "barEvents qValue g = joinBars (map (\<lambda>bar. map (\<lambda>(n, d). Ev n d) (runs bar)) (barsOf qValue g))"

text \<open>The loop of the encoder on events: the position \<open>i\<close>, the cells that remain and the
  pending run \<^verbatim>\<open>(lastNote, duration)\<close>, with the final flush.\<close>

fun evLoop :: "nat \<Rightarrow> nat \<Rightarrow> int option list \<Rightarrow> int option \<times> nat \<Rightarrow> event list" where
  "evLoop q i [] (lst, d) = (if d > 0 then [Ev lst d] else [])"
| "evLoop q i (c # cs) (lst, d) =
     (if i > 0 \<and> i mod q = 0 then
        (if d > 0 then [Ev lst d] else []) @ [Bar] @ evLoop q (i + 1) cs (c, 1)
      else if d = 0 then evLoop q (i + 1) cs (c, 1)
      else if c = lst then evLoop q (i + 1) cs (lst, d + 1)
      else Ev lst d # evLoop q (i + 1) cs (c, 1))"

definition flush :: "nat \<Rightarrow> enc_state \<Rightarrow> enc_state" where
  "flush q st = (if duration st > 0 then pushNote q (lastNote st) (duration st) st else st)"

text \<open>The events of one bar, and of a bar that continues a pending run of \<open>d\<close> cells.\<close>

definition runEvents :: "int option list \<Rightarrow> event list" where
  "runEvents bar = map (\<lambda>(n, d). Ev n d) (runs bar)"

definition rle :: "int option \<Rightarrow> nat \<Rightarrow> int option list \<Rightarrow> event list" where
  "rle lst d cs = Ev lst (d + length (takeWhile ((=) lst) cs)) # runEvents (dropWhile ((=) lst) cs)"


section \<open>Predicates used in the statements\<close>

text \<open>A cell of the grid is a gap when it is interior and silent and both of its
  neighbours sound.\<close>

definition isGap :: "int option list \<Rightarrow> nat \<Rightarrow> bool" where
  "isGap g k = (0 < k \<and> k + 1 < length g \<and> g ! k = None \<and> g ! (k - 1) \<noteq> None \<and> g ! (k + 1) \<noteq> None)"

text \<open>
  The cells \<open>pre\<close> before a run of pitch \<open>p\<close> leave the run to be scanned afresh by the
  tail-extension pass: there are none, or the last of them sounds another pitch, or it is
  silent and is the first cell of the grid or follows a silent cell.
\<close>

definition freeBefore :: "int option list \<Rightarrow> int \<Rightarrow> bool" where
  "freeBefore pre p =
     (pre = [] \<or> (last pre \<noteq> None \<and> last pre \<noteq> Some p)
      \<or> (last pre = None \<and> (length pre = 1 \<or> pre ! (length pre - 2) = None)))"

text \<open>The characters a note name can start with.\<close>

definition noteHeads :: "char set" where
  "noteHeads = set ''^CDEFGABcdefgab''"


section \<open>Harmony register\<close>










section \<open>Note names\<close>

lemma notesAbc_heads:
  "n \<in> set notesAbc \<Longrightarrow> n \<noteq> [] \<and> hd n \<in> noteHeads \<and> hd (toLowerCase n) \<in> noteHeads"
  by (auto simp: notesAbc_def noteHeads_def toLowerCase_def lowerChar_def)

lemma toLowerCase_nonempty: "toLowerCase n = [] \<longleftrightarrow> n = []"
  by (simp add: toLowerCase_def)

lemma midiToAbc_head: "midiToAbc m \<noteq> [] \<and> hd (midiToAbc m) \<in> noteHeads"
proof -
  define safeMidi where "safeMidi = max 0 (min 127 m)"
  define idx where "idx = nat (safeMidi mod 12)"
  have "idx < 12" unfolding idx_def by simp
  then have len: "idx < length notesAbc" by (simp add: notesAbc_def)
  then have "notesAbc ! idx \<in> set notesAbc" by (rule nth_mem)
  from notesAbc_heads [OF this]
  have h: "notesAbc ! idx \<noteq> []" "hd (notesAbc ! idx) \<in> noteHeads"
    "hd (toLowerCase (notesAbc ! idx)) \<in> noteHeads" by simp_all
  from h(1) have l: "toLowerCase (notesAbc ! idx) \<noteq> []" by (simp add: toLowerCase_nonempty)
  show ?thesis
    using h l len unfolding midiToAbc_def Let_def safeMidi_def [symmetric] idx_def [symmetric]
    by (simp add: hd_append)
qed

lemma midiToAbc_safe: "safeAbc (midiToAbc m) = midiToAbc m"
proof -
  from midiToAbc_head [of m] have "midiToAbc m \<noteq> []" and "hd (midiToAbc m) \<in> noteHeads" by simp_all
  moreover have "hd ''undefined'' \<notin> noteHeads" by (simp add: noteHeads_def)
  ultimately show ?thesis unfolding safeAbc_def by auto
qed






section \<open>Duration strings\<close>

text \<open>
  C8. \<^verbatim>\<open>getDurStr\<close> is the duration table of the specification: for qValue 8 the empty
  string when \<open>d = 1\<close> and the decimal of \<open>d\<close> otherwise; for qValue 16 the eighths count
  \<open>d / 2\<close> for even \<open>d\<close> (omitted when it is 1), and \<open>/2\<close> or \<open>d/2\<close> for odd \<open>d\<close>; for
  qValue 4 the decimal of \<open>2 * d\<close>.
\<close>

theorem getDurStr_table:
  "getDurStr 8 d = durationStr8 d \<and> getDurStr 16 d = durationStr16 d
   \<and> getDurStr 4 d = durationStr4 d"
  by (simp add: getDurStr_def durationStr8_def durationStr16_def durationStr4_def Let_def
      even_iff_mod_2_eq_zero mult.commute)

text \<open>\<open>decimal\<close> writes the number that \<open>parseInt\<close> reads back.\<close>

lemma digitVal_digitChar: "n < 10 \<Longrightarrow> digitVal (digitChar n) = n"
proof -
  assume "n < 10"
  then have "n \<in> {0,1,2,3,4,5,6,7,8,9}" by auto
  then show ?thesis by (auto simp: digitVal_def digitChar_def)
qed

lemma parseInt_snoc: "parseInt (ds @ [c]) = 10 * parseInt ds + digitVal c"
  by (simp add: parseInt_def)

lemma parseInt_decimal: "parseInt (decimal n) = n"
proof (induction n rule: decimal.induct)
  case (1 n)
  show ?case
  proof (cases "n < 10")
    case True
    then show ?thesis by (subst decimal.simps) (simp add: parseInt_def digitVal_digitChar)
  next
    case False
    with 1 have "parseInt (decimal (n div 10)) = n div 10" by simp
    with False show ?thesis
      by (subst decimal.simps) (simp add: parseInt_snoc digitVal_digitChar)
  qed
qed

theorem getDurStr_table_witness:
  "getDurStr 8 1 = [] \<and> getDurStr 8 3 = ''3'' \<and> getDurStr 16 1 = ''/2'' \<and> getDurStr 16 2 = []
   \<and> getDurStr 16 3 = ''3/2'' \<and> getDurStr 16 4 = ''2'' \<and> getDurStr 4 1 = ''2''
   \<and> getDurStr 4 3 = ''6''"
proof -
  have "durationStr8 1 = []" "durationStr8 3 = ''3''" "durationStr16 1 = ''/2''"
    "durationStr16 2 = []" "durationStr16 3 = ''3/2''" "durationStr16 4 = ''2''"
    "durationStr4 1 = ''2''" "durationStr4 3 = ''6''"
    by code_simp+
  with getDurStr_table [of 1] getDurStr_table [of 2] getDurStr_table [of 3] getDurStr_table [of 4]
  show ?thesis by simp
qed

section \<open>Gap filling\<close>

lemma length_fillAt [simp]: "length (fillAt i g) = length g"
  by (simp add: fillAt_def Let_def)

lemma fillAt_nth:
  "k < length g \<Longrightarrow> 0 < i \<Longrightarrow> i + 1 < length g \<Longrightarrow>
   fillAt i g ! k = (if k = i \<and> isGap g i then g ! (i - 1) else g ! k)"
  by (auto simp: fillAt_def Let_def isGap_def nth_list_update)

lemma length_gapFillFrom [simp]: "length (gapFillFrom i g) = length g"
proof (induction i g rule: gapFillFrom.induct)
  case (1 i g)
  then show ?case by (subst gapFillFrom.simps) simp
qed

text \<open>The pass in place computes what a simultaneous pass over the cells from \<open>i\<close> on
  would: filling a gap never makes or unmakes another one.\<close>

lemma gapFillFrom_nth:
  "0 < i \<Longrightarrow> k < length g \<Longrightarrow>
   gapFillFrom i g ! k = (if i \<le> k \<and> isGap g k then g ! (k - 1) else g ! k)"
proof (induction i g arbitrary: k rule: gapFillFrom.induct)
  case (1 i g)
  show ?case
  proof (cases "i + 1 < length g")
    case False
    with 1(2,3) have "\<not> (i \<le> k \<and> isGap g k)" by (auto simp: isGap_def)
    with False show ?thesis by (subst gapFillFrom.simps) auto
  next
    case True
    let ?g = "fillAt i g"
    have step: "gapFillFrom i g = gapFillFrom (i + 1) ?g"
      using True by (subst gapFillFrom.simps) simp
    have ih: "gapFillFrom (i + 1) ?g ! k
        = (if i + 1 \<le> k \<and> isGap ?g k then ?g ! (k - 1) else ?g ! k)"
      using 1(1) [OF True, of k] 1(3) by simp
    have nth: "\<And>m. m < length g \<Longrightarrow> ?g ! m = (if m = i \<and> isGap g i then g ! (i - 1) else g ! m)"
      using fillAt_nth [OF _ 1(2) True] by blast
    consider "k < i" | "k = i" | "k = i + 1" | "i + 1 < k" by linarith
    then show ?thesis
    proof cases
      case 1
      with ih nth [of k] \<open>k < length g\<close> step show ?thesis by simp
    next
      case 2
      with ih nth [of k] \<open>k < length g\<close> step show ?thesis by simp
    next
      case 3
      have len: "Suc i < length g" using True by simp
      have same: "?g ! Suc i = g ! Suc i" using nth [of "Suc i"] len by simp
      have right: "Suc (Suc i) < length g \<Longrightarrow> ?g ! Suc (Suc i) = g ! Suc (Suc i)"
        using nth [of "Suc (Suc i)"] by simp
      have left: "g ! Suc i = None \<Longrightarrow> ?g ! i = g ! i"
        using nth [of i] len by (simp add: isGap_def)
      have "isGap ?g (Suc i) \<longleftrightarrow> isGap g (Suc i)"
      proof (cases "Suc (Suc i) < length g \<and> g ! Suc i = None")
        case True
        with same right left show ?thesis by (simp add: isGap_def)
      next
        case False
        with same show ?thesis by (auto simp: isGap_def)
      qed
      moreover have "isGap g (Suc i) \<Longrightarrow> ?g ! i = g ! i"
        using left by (simp add: isGap_def)
      ultimately show ?thesis using ih step 3 same by auto
    next
      case 4
      then have ne: "k - 1 \<noteq> i" "k \<noteq> i" "k + 1 \<noteq> i" by arith+
      have "k - 1 < length g" using \<open>k < length g\<close> by arith
      then have l: "?g ! (k - 1) = g ! (k - 1)"
        using ne(1) nth [of "k - 1"] by simp
      have m: "?g ! k = g ! k" using ne(2) nth [of k] \<open>k < length g\<close> by simp
      have r: "k + 1 < length g \<Longrightarrow> ?g ! (k + 1) = g ! (k + 1)"
        using ne(3) nth [of "k + 1"] by simp
      have "isGap ?g k \<longleftrightarrow> isGap g k"
      proof (cases "k + 1 < length g")
        case True
        with l m r show ?thesis unfolding isGap_def by simp
      next
        case False
        then show ?thesis unfolding isGap_def by simp
      qed
      with l m ih step 4 show ?thesis by simp
    qed
  qed
qed

lemma gapFill_nth:
  "k < length g \<Longrightarrow> gapFill g ! k = (if isGap g k then g ! (k - 1) else g ! k)"
  using gapFillFrom_nth [of 1 k g] by (auto simp: gapFill_def isGap_def)

lemma length_gapFill [simp]: "length (gapFill g) = length g"
  by (simp add: gapFill_def)

text \<open>No gap is left: a cell that stays silent had a silent neighbour, and that
  neighbour is not filled either.\<close>

lemma gapFill_no_gap: "\<not> isGap (gapFill g) i"
proof
  assume gap: "isGap (gapFill g) i"
  then have i: "0 < i" "i + 1 < length g" by (simp_all add: isGap_def)
  then have lt: "i - 1 < length g" "i < length g" by simp_all
  note n = gapFill_nth [OF lt(1)] gapFill_nth [OF lt(2)] gapFill_nth [OF i(2)]
  from gap have s: "gapFill g ! i = None" and l: "gapFill g ! (i - 1) \<noteq> None"
    and r: "gapFill g ! (i + 1) \<noteq> None" by (simp_all add: isGap_def)
  from s n(2) have gi: "g ! i = None" and ng: "\<not> isGap g i"
    by (auto simp: isGap_def split: if_splits)
  from gi have "\<not> isGap g (i - 1)" using i by (auto simp: isGap_def)
  with n(1) l have "g ! (i - 1) \<noteq> None" by simp
  moreover from gi have "\<not> isGap g (i + 1)" by (auto simp: isGap_def)
  with n(3) r have "g ! (i + 1) \<noteq> None" by simp
  ultimately have "isGap g i" using gi i by (simp add: isGap_def)
  with ng show False ..
qed

text \<open>
  C6. After the gap-filling pass no interior cell is silent between two sounding
  neighbours, and every cell that was one holds the pitch of its left neighbour, whether
  or not the two neighbours agree; the other cells are unchanged.
\<close>

theorem gapFill_fills_every_gap:
  assumes "0 < i" and "i + 1 < length g"
  shows "\<not> isGap (gapFill g) i
       \<and> (isGap g i \<longrightarrow> gapFill g ! i = g ! (i - 1) \<and> gapFill g ! (i - 1) = g ! (i - 1)
            \<and> gapFill g ! (i + 1) = g ! (i + 1))
       \<and> (\<not> isGap g i \<longrightarrow> gapFill g ! i = g ! i)"
proof -
  from assms have lt: "i - 1 < length g" "i < length g" "i + 1 < length g" by simp_all
  note n = gapFill_nth [OF lt(1)] gapFill_nth [OF lt(2)] gapFill_nth [OF lt(3)]
  have a: "\<not> isGap (gapFill g) i" by (rule gapFill_no_gap)
  have b: "isGap g i \<Longrightarrow> \<not> isGap g (i - 1) \<and> \<not> isGap g (i + 1)"
    using assms by (auto simp: isGap_def)
  show ?thesis using a b n by auto
qed

theorem gapFill_fills_every_gap_witness:
  "gapFill [Some 60, None, Some 64, None, None, Some 67]
     = [Some 60, Some 60, Some 64, None, None, Some 67]
   \<and> isGap [Some 60, None, Some 64, None, None, Some 67] 1
   \<and> \<not> isGap (gapFill [Some 60, None, Some 64, None, None, Some 67]) 1"
proof -
  have e: "gapFill [Some 60, None, Some 64, None, None, Some 67]
     = [Some 60, Some 60, Some 64, None, None, Some 67]" by code_simp
  have g: "isGap [Some 60, None, Some 64, None, None, Some 67] 1" by code_simp
  from gapFill_fills_every_gap [of 1 "[Some 60, None, Some 64, None, None, Some 67]"] e g
  show ?thesis by simp
qed

section \<open>Tail extension\<close>

lemma runLoop_run:
  "j + m \<le> length g \<Longrightarrow> (\<And>k. k < m \<Longrightarrow> g ! (j + k) = p)
   \<Longrightarrow> (j + m < length g \<Longrightarrow> g ! (j + m) \<noteq> p)
   \<Longrightarrow> runLoop g p (run, j) = (run + m, j + m)"
proof (induction m arbitrary: run j)
  case 0
  then show ?case by (subst runLoop.simps) auto
next
  case (Suc m)
  from Suc.prems(2) [of 0] have here: "g ! j = p" by simp
  from Suc.prems(1) have lt: "j < length g" by simp
  have "runLoop g p (run + 1, j + 1) = (run + 1 + m, j + 1 + m)"
  proof (rule Suc.IH)
    show "j + 1 + m \<le> length g" using Suc.prems(1) by simp
    show "g ! (j + 1 + k) = p" if "k < m" for k
      using Suc.prems(2) [of "Suc k"] that by simp
    show "g ! (j + 1 + m) \<noteq> p" if "j + 1 + m < length g"
      using Suc.prems(3) that by simp
  qed
  with here lt show ?case by (simp add: runLoop_step)
qed

lemma length_tailFrom [simp]: "length (tailFrom i g) = length g"
proof (induction i g rule: tailFrom.induct)
  case (1 i g)
  show ?case
  proof (cases "i < length g")
    case False
    then show ?thesis by (subst tailFrom.simps) simp
  next
    case True
    show ?thesis
    proof (cases "g ! i = None")
      case True
      with 1(2) \<open>i < length g\<close> show ?thesis by (subst tailFrom.simps) simp
    next
      case False
      obtain g' j where s: "tailStep i g = (g', j)" by (cases "tailStep i g")
      from 1(1) [OF \<open>i < length g\<close> False s [symmetric]]
      have "length (tailFrom j g') = length g'" .
      with tailStep_props [OF \<open>i < length g\<close> s] s False \<open>i < length g\<close>
      show ?thesis by (subst tailFrom.simps) simp
    qed
  qed
qed

text \<open>The loop never writes at or before the cell it scans from.\<close>

lemma tailFrom_before: "k \<le> i \<Longrightarrow> tailFrom i g ! k = g ! k"
proof (induction i g rule: tailFrom.induct)
  case (1 i g)
  show ?case
  proof (cases "i < length g")
    case False
    then show ?thesis by (subst tailFrom.simps) simp
  next
    case True
    show ?thesis
    proof (cases "g ! i = None")
      case True
      with 1(2) [OF \<open>i < length g\<close>] 1(3) \<open>i < length g\<close> show ?thesis
        by (subst tailFrom.simps) simp
    next
      case False
      obtain g' j where s: "tailStep i g = (g', j)" by (cases "tailStep i g")
      from tailStep_props [OF True s] have ij: "i < j" by simp
      with 1(3) have kj: "k \<le> j" "k \<noteq> j" by simp_all
      from 1(1) [OF True False s [symmetric] kj(1)]
      have "tailFrom j g' ! k = g' ! k" .
      moreover from s kj(2) have "g' ! k = g ! k"
        by (auto simp: tailStep_def Let_def split: prod.splits if_splits)
      ultimately show ?thesis using s False True by (subst tailFrom.simps) simp
    qed
  qed
qed

lemma tailFrom_silent:
  "i < length g \<Longrightarrow> g ! i = None \<Longrightarrow> tailFrom i g = tailFrom (i + 1) g"
  by (subst tailFrom.simps) simp

lemma tailFrom_sounding:
  "i < length g \<Longrightarrow> g ! i \<noteq> None \<Longrightarrow> tailStep i g = (g', j) \<Longrightarrow> tailFrom i g = tailFrom j g'"
  by (subst tailFrom.simps) simp

text \<open>One turn of the loop on a scanned run of \<open>n\<close> cells of pitch \<open>p\<close> that a silent
  cell follows.\<close>

lemma tailStep_run:
  assumes "0 < n"
  shows "tailStep (length pre) (pre @ replicate n (Some p) @ None # rest)
     = (if n = 3 \<or> n = 7 \<or> n = 15
        then (pre @ replicate n (Some p) @ Some p # rest, length pre + n)
        else (pre @ replicate n (Some p) @ None # rest, length pre + n))"
proof -
  let ?g = "pre @ replicate n (Some p) @ None # rest"
  have at: "?g ! length pre = Some p" using assms by (simp add: nth_append)
  have "runLoop ?g (Some p) (0, length pre) = (0 + n, length pre + n)"
  proof (rule runLoop_run)
    show "length pre + n \<le> length ?g" by simp
    show "?g ! (length pre + k) = Some p" if "k < n" for k
      using that by (simp add: nth_append)
    show "?g ! (length pre + n) \<noteq> Some p" by (simp add: nth_append)
  qed
  moreover have "?g ! (length pre + n) = None" by (simp add: nth_append)
  moreover have "?g[length pre + n := Some p] = pre @ replicate n (Some p) @ Some p # rest"
    by (simp add: list_update_append)
  ultimately show ?thesis using at by (simp add: tailStep_def Let_def)
qed

text \<open>
  Scanning from the first cell of a run of \<open>n\<close> cells of pitch \<open>p\<close> that a silent cell
  follows, the loop leaves the cells up to the end of the run as they are and turns the
  silent cell into \<open>p\<close> exactly when \<open>n\<close> is 3, 7 or 15, whatever stands after that cell;
  when a second silent cell follows, it stays silent.
\<close>

lemma tailFrom_run_rule:
  assumes "0 < n" and "g = pre @ replicate n (Some p) @ None # rest"
  shows "length (tailFrom (length pre) g) = length g
       \<and> (\<forall>k < length pre + n. tailFrom (length pre) g ! k = g ! k)
       \<and> tailFrom (length pre) g ! (length pre + n)
           = (if n = 3 \<or> n = 7 \<or> n = 15 then Some p else None)
       \<and> (\<forall>rest'. rest = None # rest' \<longrightarrow> tailFrom (length pre) g ! (length pre + n + 1) = None)
       \<and> (fst (tailStep (length pre) g) = g
            \<or> fst (tailStep (length pre) g) = g[length pre + n := Some p])
       \<and> (pre = [] \<longrightarrow> tailExtension g ! n = (if n = 3 \<or> n = 7 \<or> n = 15 then Some p else None))"
proof -
  let ?i = "length pre"
  let ?fire = "n = 3 \<or> n = 7 \<or> n = 15"
  let ?g' = "pre @ replicate n (Some p) @ (if ?fire then Some p else None) # rest"
  have len: "?i < length g" and at: "g ! ?i \<noteq> None"
    using assms by (simp_all add: nth_append)
  have step: "tailStep ?i g = (?g', ?i + n)"
    unfolding assms(2) using tailStep_run [OF assms(1), of pre p rest] by simp
  have go: "tailFrom ?i g = tailFrom (?i + n) ?g'"
    by (rule tailFrom_sounding [OF len at step])
  have upd: "g[?i + n := Some p] = pre @ replicate n (Some p) @ Some p # rest"
    unfolding assms(2) by (simp add: list_update_append)
  have c1: "length (tailFrom ?i g) = length g" by simp
  have c2: "\<forall>k < ?i + n. tailFrom ?i g ! k = g ! k"
  proof (intro allI impI)
    fix k assume k: "k < ?i + n"
    then have "tailFrom (?i + n) ?g' ! k = ?g' ! k" by (intro tailFrom_before) simp
    moreover from k have "?g' ! k = g ! k" unfolding assms(2) by (auto simp: nth_append)
    ultimately show "tailFrom ?i g ! k = g ! k" using go by simp
  qed
  have "tailFrom (?i + n) ?g' ! (?i + n) = ?g' ! (?i + n)" by (intro tailFrom_before) simp
  then have c3: "tailFrom ?i g ! (?i + n) = (if ?fire then Some p else None)"
    using go by (simp add: nth_append)
  have c4: "\<forall>rest'. rest = None # rest' \<longrightarrow> tailFrom ?i g ! (?i + n + 1) = None"
  proof (intro allI impI)
    fix rest' assume r: "rest = None # rest'"
    have next_cell: "?g' ! (?i + n + 1) = None" using r by (simp add: nth_append)
    have "tailFrom (?i + n) ?g' = tailFrom (?i + n + 1) ?g'"
    proof (cases ?fire)
      case False
      then have "?g' ! (?i + n) = None" by (simp add: nth_append)
      then show ?thesis by (intro tailFrom_silent) simp_all
    next
      case True
      let ?pre = "pre @ replicate n (Some p)"
      have shape: "?g' = ?pre @ replicate 1 (Some p) @ None # rest'" using True r by simp
      have "tailStep (length ?pre) (?pre @ replicate 1 (Some p) @ None # rest')
          = (?pre @ replicate 1 (Some p) @ None # rest', length ?pre + 1)"
        using tailStep_run [of 1 ?pre p rest'] by simp
      then have st: "tailStep (?i + n) ?g' = (?g', ?i + n + 1)"
        using shape by simp
      have "?g' ! (?i + n) \<noteq> None" using True by (simp add: nth_append)
      then show ?thesis by (intro tailFrom_sounding [OF _ _ st]) simp_all
    qed
    moreover have "tailFrom (?i + n + 1) ?g' ! (?i + n + 1) = ?g' ! (?i + n + 1)"
      by (intro tailFrom_before) simp
    ultimately show "tailFrom ?i g ! (?i + n + 1) = None" using go next_cell by simp
  qed
  have c5: "fst (tailStep ?i g) = g \<or> fst (tailStep ?i g) = g[?i + n := Some p]"
    using step upd assms(2) by auto
  have c6: "pre = [] \<longrightarrow> tailExtension g ! n = (if ?fire then Some p else None)"
    using c3 by (auto simp: tailExtension_def)
  from c1 c2 c3 c4 c5 c6 show ?thesis by blast
qed

lemma runLoop_cells:
  "runLoop g p (run, j) = (run', j')
   \<Longrightarrow> (\<forall>k. j \<le> k \<and> k < j' \<longrightarrow> g ! k = p) \<and> (j' < length g \<longrightarrow> g ! j' \<noteq> p)"
proof (induction g p "(run, j)" arbitrary: run j rule: runLoop.induct)
  case (1 g p run j)
  show ?case
  proof (cases "j < length g \<and> g ! j = p")
    case True
    with 1(2) have r: "runLoop g p (run + 1, j + 1) = (run', j')"
      by (subst (asm) runLoop.simps) simp
    from 1(1) [OF True r]
    have ih: "(\<forall>k. j + 1 \<le> k \<and> k < j' \<longrightarrow> g ! k = p) \<and> (j' < length g \<longrightarrow> g ! j' \<noteq> p)" .
    have "g ! k = p" if "j \<le> k" "k < j'" for k
    proof (cases "k = j")
      case True
      with \<open>j < length g \<and> g ! j = p\<close> show ?thesis by simp
    next
      case False
      with that ih show ?thesis by simp
    qed
    with ih show ?thesis by blast
  next
    case False
    with 1(2) have "j' = j" by (subst (asm) runLoop.simps) simp
    with False show ?thesis by auto
  qed
qed

text \<open>One turn of the loop at a sounding cell, in full.\<close>

lemma tailStep_cases:
  assumes "i < length g" and "tailStep i g = (g', j)"
  shows "i < j \<and> j \<le> length g \<and> (\<forall>k. i \<le> k \<and> k < j \<longrightarrow> g ! k = g ! i)
       \<and> (j < length g \<longrightarrow> g ! j \<noteq> g ! i)
       \<and> (g' = g \<or> (j < length g \<and> g ! j = None \<and> (j - i = 3 \<or> j - i = 7 \<or> j - i = 15)
             \<and> g' = g[j := g ! i]))"
proof -
  obtain run j0 where r: "runLoop g (g ! i) (0, i) = (run, j0)"
    by (cases "runLoop g (g ! i) (0, i)")
  note a = runLoop_gt [OF assms(1) r] and b = runLoop_cells [OF r]
  have st: "tailStep i g
      = (if j0 < length g \<and> g ! j0 = None \<and> (run = 3 \<or> run = 7 \<or> run = 15)
         then (g[j0 := g ! i], j0) else (g, j0))"
    using r by (simp add: tailStep_def Let_def)
  from a have run: "run = j0 - i" by simp
  let ?fire = "j0 < length g \<and> g ! j0 = None \<and> (run = 3 \<or> run = 7 \<or> run = 15)"
  have pair: "(g', j) = (if ?fire then (g[j0 := g ! i], j0) else (g, j0))"
    using st assms(2) by (simp only:)
  have j: "j = j0"
  proof (cases ?fire)
    case True
    have "(if ?fire then (g[j0 := g ! i], j0) else (g, j0)) = (g[j0 := g ! i], j0)"
      using True by (rule if_P)
    with pair have "(g', j) = (g[j0 := g ! i], j0)" by (rule trans)
    then show ?thesis by (simp only: prod.inject)
  next
    case False
    have "(if ?fire then (g[j0 := g ! i], j0) else (g, j0)) = (g, j0)"
      using False by (rule if_not_P)
    with pair have "(g', j) = (g, j0)" by (rule trans)
    then show ?thesis by (simp only: prod.inject)
  qed
  have w: "g' = g \<or> (j0 < length g \<and> g ! j0 = None \<and> (j0 - i = 3 \<or> j0 - i = 7 \<or> j0 - i = 15)
       \<and> g' = g[j0 := g ! i])"
  proof (cases ?fire)
    case True
    have "(if ?fire then (g[j0 := g ! i], j0) else (g, j0)) = (g[j0 := g ! i], j0)"
      using True by (rule if_P)
    with pair have "(g', j) = (g[j0 := g ! i], j0)" by (rule trans)
    then have upd: "g' = g[j0 := g ! i]" by (simp only: prod.inject)
    from True have f1: "j0 < length g" and f2: "g ! j0 = None"
      and f3: "run = 3 \<or> run = 7 \<or> run = 15" by blast+
    from f3 have f4: "j0 - i = 3 \<or> j0 - i = 7 \<or> j0 - i = 15" unfolding run .
    show ?thesis by (rule disjI2) (intro conjI, (rule f1 f2 f4 upd)+)
  next
    case False
    have "(if ?fire then (g[j0 := g ! i], j0) else (g, j0)) = (g, j0)"
      using False by (rule if_not_P)
    with pair have "(g', j) = (g, j0)" by (rule trans)
    then have "g' = g" by (simp only: prod.inject)
    then show ?thesis by (rule disjI1)
  qed
  from a have c1: "i < j0" "j0 \<le> length g" by simp_all
  from b have c2: "\<forall>k. i \<le> k \<and> k < j0 \<longrightarrow> g ! k = g ! i"
    and c3: "j0 < length g \<longrightarrow> g ! j0 \<noteq> g ! i" by blast+
  show ?thesis unfolding j by (intro conjI) (rule c1 c2 c3 w)+
qed

lemma tailStep_other:
  assumes "i < length g" and "tailStep i g = (g', j)" and "k \<noteq> j \<or> g ! k \<noteq> None"
  shows "g' ! k = g ! k"
proof -
  from tailStep_cases [OF assms(1,2)]
  have "g' = g \<or> (g ! j = None \<and> g' = g[j := g ! i])" by blast
  then show ?thesis
  proof
    assume "g' = g"
    then show ?thesis by simp
  next
    assume w: "g ! j = None \<and> g' = g[j := g ! i]"
    with assms(3) have "k \<noteq> j" by auto
    with w show ?thesis by simp
  qed
qed

text \<open>The pass writes to silent cells only.\<close>

lemma tailFrom_keeps_sounding:
  "k < length g \<Longrightarrow> g ! k \<noteq> None \<Longrightarrow> tailFrom i g ! k = g ! k"
proof (induction i g rule: tailFrom.induct)
  case (1 i g)
  show ?case
  proof (cases "i < length g")
    case False
    then show ?thesis by (subst tailFrom.simps) simp
  next
    case True
    show ?thesis
    proof (cases "g ! i = None")
      case True
      then have nn: "\<not> g ! i \<noteq> None" by simp
      have "tailFrom i g = tailFrom (i + 1) g"
        using \<open>i < length g\<close> True by (rule tailFrom_silent)
      with 1(2) [OF \<open>i < length g\<close> nn 1(3,4)] show ?thesis by simp
    next
      case False
      obtain g' j where s: "tailStep i g = (g', j)" by (cases "tailStep i g")
      have same: "g' ! k = g ! k" using True s by (rule tailStep_other) (simp add: 1(4))
      have len: "length g' = length g" using tailStep_props [OF True s] by simp
      from same len 1(3,4) have "k < length g'" "g' ! k \<noteq> None" by simp_all
      from 1(1) [OF True False s [symmetric] this] same
      have "tailFrom j g' ! k = g ! k" by simp
      moreover have "tailFrom i g = tailFrom j g'" by (rule tailFrom_sounding [OF True False s])
      ultimately show ?thesis by simp
    qed
  qed
qed

text \<open>A cell the pass changes was silent, and a scanned run of exactly 3, 7 or 15 cells
  of its new pitch ends right before it.\<close>

lemma tailFrom_changes:
  "k < length g \<Longrightarrow> tailFrom i g ! k \<noteq> g ! k \<Longrightarrow>
   g ! k = None \<and> (\<exists>n. (n = 3 \<or> n = 7 \<or> n = 15) \<and> i + n \<le> k
      \<and> tailFrom i g ! (k - n) = tailFrom i g ! k
      \<and> (\<forall>m. k - n < m \<and> m < k \<longrightarrow> g ! m = tailFrom i g ! k))"
proof (induction i g rule: tailFrom.induct)
  case (1 i g)
  show ?case
  proof (cases "i < length g")
    case False
    then have "tailFrom i g = g" by (subst tailFrom.simps) simp
    with 1(4) show ?thesis by simp
  next
    case True
    show ?thesis
    proof (cases "g ! i = None")
      case True
      with \<open>i < length g\<close> have e: "tailFrom i g = tailFrom (i + 1) g" by (rule tailFrom_silent)
      from True have nn: "\<not> g ! i \<noteq> None" by simp
      from 1(4) e have ch: "tailFrom (i + 1) g ! k \<noteq> g ! k" by simp
      from 1(2) [OF \<open>i < length g\<close> nn 1(3) ch]
      obtain n where n: "g ! k = None" "n = 3 \<or> n = 7 \<or> n = 15" "i + 1 + n \<le> k"
        "tailFrom (i + 1) g ! (k - n) = tailFrom (i + 1) g ! k"
        "\<forall>m. k - n < m \<and> m < k \<longrightarrow> g ! m = tailFrom (i + 1) g ! k"
        by blast
      from n(3) have "i + n \<le> k" by simp
      with n(1,2,4,5) show ?thesis unfolding e by blast
    next
      case False
      obtain g' j where s: "tailStep i g = (g', j)" by (cases "tailStep i g")
      have e: "tailFrom i g = tailFrom j g'" by (rule tailFrom_sounding [OF True False s])
      note c = tailStep_cases [OF True s]
      from c have ij: "i < j" by blast
      from c have cells: "\<And>m. i \<le> m \<Longrightarrow> m < j \<Longrightarrow> g ! m = g ! i" by blast
      have len: "length g' = length g" using tailStep_props [OF True s] by simp
      show ?thesis
      proof (cases "k = j \<and> g' \<noteq> g")
        case True
        with c have w1: "g ! j = None" and w2: "j - i = 3 \<or> j - i = 7 \<or> j - i = 15"
          and w3: "g' = g[j := g ! i]" and w4: "j < length g" by blast+
        have "tailFrom j g' ! j = g' ! j" by (rule tailFrom_before) simp
        with w3 w4 have oj: "tailFrom i g ! k = g ! i" unfolding e using True by simp
        have "tailFrom j g' ! i = g' ! i" by (rule tailFrom_before) (simp add: ij less_imp_le)
        with w3 ij have "tailFrom i g ! i = g ! i" unfolding e by simp
        moreover from True ij have ki: "k - (j - i) = i" by simp
        ultimately have bk: "tailFrom i g ! (k - (j - i)) = tailFrom i g ! k" using oj by simp
        have run: "g ! m = tailFrom i g ! k" if "k - (j - i) < m \<and> m < k" for m
        proof -
          from that ki True have "i \<le> m" "m < j" by arith+
          then have "g ! m = g ! i" by (rule cells)
          with oj show ?thesis by simp
        qed
        from True ij have bound: "i + (j - i) \<le> k" by simp
        from True w1 have "g ! k = None" by simp
        with w2 bound bk run show ?thesis by blast
      next
        case other: False
        have same: "g' ! k = g ! k"
        proof (cases "k = j")
          case True
          with other have "g' = g" by simp
          then show ?thesis by simp
        next
          case False
          then show ?thesis by (intro tailStep_other [OF True s] disjI1)
        qed
        with 1(4) e have ch: "tailFrom j g' ! k \<noteq> g' ! k" by simp
        from 1(3) len have kl: "k < length g'" by simp
        from 1(1) [OF True False s [symmetric] kl ch]
        obtain n where n: "g' ! k = None" "n = 3 \<or> n = 7 \<or> n = 15" "j + n \<le> k"
          "tailFrom j g' ! (k - n) = tailFrom j g' ! k"
          "\<forall>m. k - n < m \<and> m < k \<longrightarrow> g' ! m = tailFrom j g' ! k"
          by blast
        have run: "g ! m = tailFrom i g ! k" if "k - n < m \<and> m < k" for m
        proof -
          from that n(3) have "m \<noteq> j" by arith
          then have "g' ! m = g ! m" by (intro tailStep_other [OF True s] disjI1)
          moreover from n(5) that have "g' ! m = tailFrom j g' ! k" by blast
          ultimately show ?thesis unfolding e by simp
        qed
        from n(3) ij have bound: "i + n \<le> k" by simp
        from n(1) same have "g ! k = None" by simp
        moreover from n(4) have "tailFrom i g ! (k - n) = tailFrom i g ! k" unfolding e .
        ultimately show ?thesis using n(2) bound run by blast
      qed
    qed
  qed
qed

text \<open>The scan stops at every sounding cell whose left neighbour sounds another pitch:
  no scanned run passes over the change of pitch, and neither cell is written.\<close>

lemma tailFrom_reach_sounding:
  "i \<le> m \<Longrightarrow> m < length g \<Longrightarrow> 0 < m \<Longrightarrow> g ! (m - 1) \<noteq> None \<Longrightarrow> g ! m \<noteq> None
   \<Longrightarrow> g ! (m - 1) \<noteq> g ! m
   \<Longrightarrow> \<exists>g'. tailFrom i g = tailFrom m g' \<and> length g' = length g \<and> (\<forall>k. m \<le> k \<longrightarrow> g' ! k = g ! k)"
proof (induction i g rule: tailFrom.induct)
  case (1 i g)
  show ?case
  proof (cases "i = m")
    case True
    then show ?thesis by blast
  next
    case False
    with 1(3) have im: "i < m" by simp
    with 1(4) have il: "i < length g" by simp
    show ?thesis
    proof (cases "g ! i = None")
      case True
      then have nn: "\<not> g ! i \<noteq> None" by simp
      have e: "tailFrom i g = tailFrom (i + 1) g" using il True by (rule tailFrom_silent)
      from im have "i + 1 \<le> m" by simp
      from 1(2) [OF il nn this 1(4-8)] show ?thesis unfolding e .
    next
      case sounding: False
      obtain g' j where s: "tailStep i g = (g', j)" by (cases "tailStep i g")
      have e: "tailFrom i g = tailFrom j g'" by (rule tailFrom_sounding [OF il sounding s])
      note c = tailStep_cases [OF il s]
      from c have cells: "\<And>k. i \<le> k \<Longrightarrow> k < j \<Longrightarrow> g ! k = g ! i" by blast
      have len: "length g' = length g" using tailStep_props [OF il s] by simp
      have jm: "j \<le> m"
      proof (rule ccontr)
        assume "\<not> j \<le> m"
        then have "m < j" by simp
        moreover from im 1(5) have "i \<le> m - 1" "m - 1 < m" by arith+
        ultimately have "g ! (m - 1) = g ! i" "g ! m = g ! i"
          using im by (intro cells; simp)+
        with 1(8) show False by simp
      qed
      have keep: "g' ! k = g ! k" if "k = m - 1 \<or> m \<le> k" for k
      proof (rule tailStep_other [OF il s])
        show "k \<noteq> j \<or> g ! k \<noteq> None"
        proof (cases "k = j")
          case True
          with that jm 1(5) have "k = m - 1 \<or> k = m" by arith
          with 1(6,7) show ?thesis by auto
        next
          case False
          then show ?thesis by simp
        qed
      qed
      have "\<exists>g''. tailFrom j g' = tailFrom m g'' \<and> length g'' = length g'
          \<and> (\<forall>k. m \<le> k \<longrightarrow> g'' ! k = g' ! k)"
      proof (rule 1(1) [OF il sounding s [symmetric] jm])
        show "m < length g'" using 1(4) len by simp
        show "0 < m" by (rule 1(5))
        show "g' ! (m - 1) \<noteq> None" using keep [of "m - 1"] 1(6) by simp
        show "g' ! m \<noteq> None" using keep [of m] 1(7) by simp
        show "g' ! (m - 1) \<noteq> g' ! m" using keep [of "m - 1"] keep [of m] 1(8) by simp
      qed
      then obtain g'' where r: "tailFrom j g' = tailFrom m g''" "length g'' = length g'"
        "\<forall>k. m \<le> k \<longrightarrow> g'' ! k = g' ! k" by blast
      have "\<forall>k. m \<le> k \<longrightarrow> g'' ! k = g ! k"
      proof (intro allI impI)
        fix k assume "m \<le> k"
        with r(3) keep [of k] show "g'' ! k = g ! k" by simp
      qed
      with r(1,2) len e show ?thesis by (intro exI [of _ g'']) simp
    qed
  qed
qed

text \<open>The scan stops at every silent cell: no scanned run passes over it.\<close>

lemma tailFrom_reach_silent:
  "i \<le> t \<Longrightarrow> t < length g \<Longrightarrow> g ! t = None
   \<Longrightarrow> \<exists>g'. tailFrom i g = tailFrom t g' \<and> length g' = length g \<and> (\<forall>k. t < k \<longrightarrow> g' ! k = g ! k)"
proof (induction i g rule: tailFrom.induct)
  case (1 i g)
  show ?case
  proof (cases "i = t")
    case True
    then show ?thesis by blast
  next
    case False
    with 1(3) have it: "i < t" by simp
    with 1(4) have il: "i < length g" by simp
    show ?thesis
    proof (cases "g ! i = None")
      case True
      then have nn: "\<not> g ! i \<noteq> None" by simp
      have e: "tailFrom i g = tailFrom (i + 1) g" using il True by (rule tailFrom_silent)
      from it have "i + 1 \<le> t" by simp
      from 1(2) [OF il nn this 1(4,5)] show ?thesis unfolding e .
    next
      case sounding: False
      obtain g' j where s: "tailStep i g = (g', j)" by (cases "tailStep i g")
      have e: "tailFrom i g = tailFrom j g'" by (rule tailFrom_sounding [OF il sounding s])
      note c = tailStep_cases [OF il s]
      from c have cells: "\<And>k. i \<le> k \<Longrightarrow> k < j \<Longrightarrow> g ! k = g ! i" by blast
      have len: "length g' = length g" using tailStep_props [OF il s] by simp
      have jt: "j \<le> t"
      proof (rule ccontr)
        assume "\<not> j \<le> t"
        with it have "g ! t = g ! i" by (intro cells) simp_all
        with 1(5) sounding show False by simp
      qed
      have keep: "g' ! k = g ! k" if "k \<noteq> j" for k
        using that by (intro tailStep_other [OF il s] disjI1)
      show ?thesis
      proof (cases "j = t")
        case True
        have "\<forall>k. t < k \<longrightarrow> g' ! k = g ! k" using keep True by simp
        with e len True show ?thesis by (intro exI [of _ g']) simp
      next
        case False
        with jt have "g' ! t = None" using keep [of t] 1(5) by simp
        moreover have "t < length g'" using 1(4) len by simp
        ultimately have "\<exists>g''. tailFrom j g' = tailFrom t g'' \<and> length g'' = length g'
            \<and> (\<forall>k. t < k \<longrightarrow> g'' ! k = g' ! k)"
          by (intro 1(1) [OF il sounding s [symmetric] jt])
        then obtain g'' where r: "tailFrom j g' = tailFrom t g''" "length g'' = length g'"
          "\<forall>k. t < k \<longrightarrow> g'' ! k = g' ! k" by blast
        have "\<forall>k. t < k \<longrightarrow> g'' ! k = g ! k"
        proof (intro allI impI)
          fix k assume "t < k"
          with r(3) keep [of k] jt show "g'' ! k = g ! k" by simp
        qed
        with r(1,2) len e show ?thesis by (intro exI [of _ g'']) simp
      qed
    qed
  qed
qed

text \<open>After a silent cell that stands first in the grid or follows another silent cell,
  the scan starts afresh: the silent cell is not written.\<close>

lemma tailFrom_reach_after_silence:
  assumes "0 < m" and "m \<le> length g" and "g ! (m - 1) = None"
    and "m = 1 \<or> g ! (m - 2) = None"
  shows "\<exists>g'. tailFrom 0 g = tailFrom m g' \<and> length g' = length g
           \<and> (\<forall>k. m \<le> k \<longrightarrow> g' ! k = g ! k)"
proof (cases "m = 1")
  case True
  from assms(1,2) have "0 < length g" by arith
  moreover from assms(3) True have "g ! 0 = None" by simp
  ultimately have "tailFrom 0 g = tailFrom (0 + 1) g" by (rule tailFrom_silent)
  with True show ?thesis by (intro exI [of _ g]) simp
next
  case False
  with assms have m2: "2 \<le> m" and s2: "g ! (m - 2) = None" by simp_all
  from m2 assms(2) have "m - 2 < length g" by simp
  from tailFrom_reach_silent [OF _ this s2, of 0]
  obtain g1 where r: "tailFrom 0 g = tailFrom (m - 2) g1" "length g1 = length g"
    "\<forall>k. m - 2 < k \<longrightarrow> g1 ! k = g ! k" by auto
  from m2 have "m - 2 < m - 1" by arith
  with r(3) have "g1 ! (m - 1) = g ! (m - 1)" by blast
  with assms(3) have s1: "g1 ! (m - 1) = None" by simp
  from m2 assms(2) r(2) have l2: "m - 2 < length g1" and l1: "m - 1 < length g1" by simp_all
  have last_step: "tailFrom (m - 1) g1 = tailFrom m g1"
    using tailFrom_silent [OF l1 s1] m2 by simp
  have "tailFrom (m - 2) g1 = tailFrom (m - 1) g1"
  proof (cases "g1 ! (m - 2) = None")
    case True
    from tailFrom_silent [OF l2 True] m2 show ?thesis
      by (simp add: numeral_2_eq_2 Suc_diff_Suc)
  next
    case False
    obtain g2 j where s: "tailStep (m - 2) g1 = (g2, j)" by (cases "tailStep (m - 2) g1")
    note c = tailStep_cases [OF l2 s]
    from c have lo: "m - 2 < j" by blast
    from c have cells: "\<And>k. m - 2 \<le> k \<Longrightarrow> k < j \<Longrightarrow> g1 ! k = g1 ! (m - 2)" by blast
    have "j \<le> m - 1"
    proof (rule ccontr)
      assume "\<not> j \<le> m - 1"
      then have "g1 ! (m - 1) = g1 ! (m - 2)" by (intro cells) simp_all
      with s1 False show False by simp
    qed
    with lo m2 have j: "j = m - 1" and d: "j - (m - 2) = 1" by arith+
    from c d have "g2 = g1" by auto
    with tailFrom_sounding [OF l2 False s] j show ?thesis by simp
  qed
  with r(1) last_step have "tailFrom 0 g = tailFrom m g1" by simp
  moreover have "\<forall>k. m \<le> k \<longrightarrow> g1 ! k = g ! k"
  proof (intro allI impI)
    fix k assume "m \<le> k"
    with m2 have "m - 2 < k" by simp
    with r(3) show "g1 ! k = g ! k" by blast
  qed
  ultimately show ?thesis using r(2) by blast
qed

lemma drop_agree:
  assumes "length a = length b" and "\<forall>k. m \<le> k \<longrightarrow> a ! k = b ! k"
  shows "drop m a = drop m b"
proof (rule nth_equalityI)
  show "length (drop m a) = length (drop m b)" using assms(1) by simp
next
  fix i assume "i < length (drop m a)"
  then have "m + i < length a" by simp
  with assms show "drop m a ! i = drop m b ! i" by simp
qed

text \<open>A maximal run that scanning reaches afresh: on the whole pass, the silent cell
  after it is turned into its pitch exactly when the run has 3, 7 or 15 cells.\<close>

lemma tailExtension_at_run:
  assumes "0 < n" and "g = pre @ replicate n (Some p) @ None # rest" and "freeBefore pre p"
  shows "tailExtension g ! (length pre + n) = (if n = 3 \<or> n = 7 \<or> n = 15 then Some p else None)
       \<and> (\<forall>rest'. rest = None # rest' \<longrightarrow> tailExtension g ! (length pre + n + 1) = None)"
proof -
  let ?m = "length pre"
  have gm: "g ! ?m = Some p" using assms(1,2) by (simp add: nth_append)
  have ml: "?m < length g" using assms(2) by simp
  have "\<exists>g'. tailFrom 0 g = tailFrom ?m g' \<and> length g' = length g
      \<and> (\<forall>k. ?m \<le> k \<longrightarrow> g' ! k = g ! k)"
  proof (cases "pre = []")
    case True
    then show ?thesis by (intro exI [of _ g]) simp
  next
    case False
    then have pos: "0 < ?m" by simp
    have lastc: "g ! (?m - 1) = last pre"
      using False assms(2) by (simp add: nth_append last_conv_nth)
    show ?thesis
    proof (cases "last pre = None")
      case True
      with assms(3) False have "length pre = 1 \<or> pre ! (length pre - 2) = None"
        by (simp add: freeBefore_def)
      then have "?m = 1 \<or> g ! (?m - 2) = None"
      proof
        assume "length pre = 1"
        then show ?thesis by simp
      next
        assume z: "pre ! (length pre - 2) = None"
        from pos have "?m - 2 < ?m" by arith
        then have "g ! (?m - 2) = pre ! (?m - 2)" unfolding assms(2) by (simp add: nth_append)
        with z show ?thesis by simp
      qed
      with pos ml lastc True show ?thesis
        by (intro tailFrom_reach_after_silence) simp_all
    next
      case sounding: False
      with assms(3) \<open>pre \<noteq> []\<close> have "last pre \<noteq> Some p" by (simp add: freeBefore_def)
      with lastc gm sounding pos ml show ?thesis
        by (intro tailFrom_reach_sounding) simp_all
    qed
  qed
  then obtain g' where r: "tailFrom 0 g = tailFrom ?m g'" "length g' = length g"
    "\<forall>k. ?m \<le> k \<longrightarrow> g' ! k = g ! k" by blast
  let ?pre = "take ?m g'"
  have lp: "length ?pre = ?m" using r(2) ml by simp
  have "drop ?m g' = drop ?m g" using r(2,3) by (rule drop_agree)
  also have "\<dots> = replicate n (Some p) @ None # rest" unfolding assms(2) by simp
  finally have shape: "g' = ?pre @ replicate n (Some p) @ None # rest"
    by (metis append_take_drop_id)
  from tailFrom_run_rule [OF assms(1) shape]
  have "tailFrom (length ?pre) g' ! (length ?pre + n)
        = (if n = 3 \<or> n = 7 \<or> n = 15 then Some p else None)"
    and "\<forall>rest'. rest = None # rest' \<longrightarrow> tailFrom (length ?pre) g' ! (length ?pre + n + 1) = None"
    by blast+
  then show ?thesis unfolding lp tailExtension_def r(1) by blast
qed

text \<open>In a grid as gap filling leaves it, every maximal run is reached afresh.\<close>

lemma freeBefore_after_gapFill:
  assumes "0 < n" and "gapFill g0 = pre @ replicate n (Some p) @ None # rest"
    and "pre = [] \<or> last pre \<noteq> Some p"
  shows "freeBefore pre p"
proof (rule ccontr)
  assume nf: "\<not> freeBefore pre p"
  let ?h = "gapFill g0" and ?m = "length pre"
  from nf assms(3) have ne: "pre \<noteq> []" and ln: "last pre = None"
    and m2: "length pre \<noteq> 1" and s: "pre ! (?m - 2) \<noteq> None"
    by (auto simp: freeBefore_def)
  from ne have "length pre \<noteq> 0" by simp
  with m2 have two: "2 \<le> ?m" by arith
  have "?h ! (?m - 1) = None" using ne ln unfolding assms(2) by (simp add: nth_append last_conv_nth)
  moreover have "?h ! (?m - 1 - 1) \<noteq> None"
  proof -
    from two have i: "?m - 1 - 1 = ?m - 2" and lt: "?m - 2 < ?m" by arith+
    from lt have "?h ! (?m - 2) = pre ! (?m - 2)" unfolding assms(2) by (simp add: nth_append)
    with s i show ?thesis by simp
  qed
  moreover have "?h ! (?m - 1 + 1) \<noteq> None"
  proof -
    from two have i: "?m - 1 + 1 = ?m" by arith
    have "?h ! ?m = Some p" unfolding assms(2) using assms(1) by (simp add: nth_append)
    with i show ?thesis by simp
  qed
  moreover have "?m - 1 + 1 < length ?h"
  proof -
    from two have "?m - 1 + 1 = ?m" by arith
    then show ?thesis unfolding assms(2) by simp
  qed
  moreover have "0 < ?m - 1" using two by simp
  ultimately have "isGap ?h (?m - 1)" by (simp add: isGap_def)
  with gapFill_no_gap show False by blast
qed

text \<open>
  C2, as the code has it. The tail-extension pass keeps the length of the grid and writes
  to silent cells only. A cell it changes was silent, and in the result the 3, 7 or 15
  cells right before it hold its new pitch (all but the first of them held it before the
  pass). For a run of \<open>n\<close> cells of pitch \<open>p\<close> that a silent cell follows and that scanning
  reaches afresh (it starts the grid, or follows a cell of another pitch, or follows a
  silent cell that is first in the grid or itself follows a silent cell), the silent cell
  becomes \<open>p\<close> exactly when \<open>n\<close> is 3, 7 or 15, so not for \<open>n = 4\<close>, and whatever stands
  after it; when a second silent cell follows, it stays silent, so that the run grows by
  one cell at most. In the grid that gap filling leaves, this holds for every maximal run
  that a silent cell follows.
\<close>

theorem tail_extension_rule:
  "length (tailExtension g) = length g
   \<and> (\<forall>k < length g. g ! k \<noteq> None \<longrightarrow> tailExtension g ! k = g ! k)
   \<and> (\<forall>k < length g. tailExtension g ! k \<noteq> g ! k \<longrightarrow>
        g ! k = None \<and> (\<exists>n. (n = 3 \<or> n = 7 \<or> n = 15) \<and> n \<le> k
           \<and> tailExtension g ! (k - n) = tailExtension g ! k
           \<and> (\<forall>m. k - n < m \<and> m < k \<longrightarrow> g ! m = tailExtension g ! k)))
   \<and> (0 < n \<and> g = pre @ replicate n (Some p) @ None # rest \<and> freeBefore pre p \<longrightarrow>
        tailExtension g ! (length pre + n) = (if n = 3 \<or> n = 7 \<or> n = 15 then Some p else None)
        \<and> (\<forall>rest'. rest = None # rest' \<longrightarrow> tailExtension g ! (length pre + n + 1) = None))
   \<and> (0 < n \<and> gapFill g0 = pre @ replicate n (Some p) @ None # rest
        \<and> (pre = [] \<or> last pre \<noteq> Some p) \<longrightarrow>
        tailExtension (gapFill g0) ! (length pre + n)
          = (if n = 3 \<or> n = 7 \<or> n = 15 then Some p else None)
        \<and> (\<forall>rest'. rest = None # rest'
              \<longrightarrow> tailExtension (gapFill g0) ! (length pre + n + 1) = None))"
proof (intro conjI allI impI)
  show "length (tailExtension g) = length g" by (simp add: tailExtension_def)
next
  fix k assume "k < length g" and "g ! k \<noteq> None"
  then show "tailExtension g ! k = g ! k"
    unfolding tailExtension_def by (rule tailFrom_keeps_sounding)
next
  fix k assume k: "k < length g" and ch: "tailExtension g ! k \<noteq> g ! k"
  from tailFrom_changes [OF k, of 0] ch
  have c: "g ! k = None \<and> (\<exists>n. (n = 3 \<or> n = 7 \<or> n = 15) \<and> 0 + n \<le> k
      \<and> tailExtension g ! (k - n) = tailExtension g ! k
      \<and> (\<forall>m. k - n < m \<and> m < k \<longrightarrow> g ! m = tailExtension g ! k))"
    unfolding tailExtension_def by blast
  from c show "g ! k = None" by blast
  from c show "\<exists>n. (n = 3 \<or> n = 7 \<or> n = 15) \<and> n \<le> k
      \<and> tailExtension g ! (k - n) = tailExtension g ! k
      \<and> (\<forall>m. k - n < m \<and> m < k \<longrightarrow> g ! m = tailExtension g ! k)"
    by (simp only: add_0)
next
  assume h: "0 < n \<and> g = pre @ replicate n (Some p) @ None # rest \<and> freeBefore pre p"
  then have a: "0 < n" and b: "g = pre @ replicate n (Some p) @ None # rest"
    and c: "freeBefore pre p" by blast+
  note r = tailExtension_at_run [OF a b c]
  from r show "tailExtension g ! (length pre + n)
      = (if n = 3 \<or> n = 7 \<or> n = 15 then Some p else None)" by (rule conjunct1)
  fix rest' assume "rest = None # rest'"
  with r show "tailExtension g ! (length pre + n + 1) = None" by blast
next
  assume h: "0 < n \<and> gapFill g0 = pre @ replicate n (Some p) @ None # rest
      \<and> (pre = [] \<or> last pre \<noteq> Some p)"
  then have a: "0 < n" and b: "gapFill g0 = pre @ replicate n (Some p) @ None # rest"
    and c: "pre = [] \<or> last pre \<noteq> Some p" by blast+
  note r = tailExtension_at_run [OF a b freeBefore_after_gapFill [OF a b c]]
  from r show "tailExtension (gapFill g0) ! (length pre + n)
      = (if n = 3 \<or> n = 7 \<or> n = 15 then Some p else None)" by (rule conjunct1)
  fix rest' assume "rest = None # rest'"
  with r show "tailExtension (gapFill g0) ! (length pre + n + 1) = None" by blast
qed

theorem tail_extension_rule_witness:
  "(0::nat) < 3 \<and> freeBefore [Some 62] 60
   \<and> tailExtension ([Some 62] @ replicate 3 (Some 60) @ None # [None, Some 60])
        ! (length [Some (62::int)] + 3) = Some 60
   \<and> tailExtension ([Some 62] @ replicate 3 (Some 60) @ None # [None, Some 60])
        ! (length [Some (62::int)] + 3 + 1) = None
   \<and> (0::nat) < 4 \<and> freeBefore [] 60
   \<and> tailExtension ([] @ replicate 4 (Some 60) @ None # [Some 64])
        ! (length ([] :: int option list) + 4) = None
   \<and> length (tailExtension [Some 60, Some 60, Some 60, None]) = length [Some (60::int), Some 60, Some 60, None]
   \<and> 1 < length ([Some 62] @ replicate 3 (Some 60) @ None # [None, Some (60::int)])
   \<and> ([Some 62] @ replicate 3 (Some 60) @ None # [None, Some (60::int)]) ! 1 \<noteq> None
   \<and> tailExtension ([Some 62] @ replicate 3 (Some 60) @ None # [None, Some 60]) ! 1
        = ([Some 62] @ replicate 3 (Some 60) @ None # [None, Some 60]) ! 1
   \<and> 4 < length ([Some 62] @ replicate 3 (Some 60) @ None # [None, Some (60::int)])
   \<and> tailExtension ([Some 62] @ replicate 3 (Some 60) @ None # [None, Some 60]) ! 4
        \<noteq> ([Some 62] @ replicate 3 (Some 60) @ None # [None, Some 60]) ! 4
   \<and> ([Some 62] @ replicate 3 (Some 60) @ None # [None, Some (60::int)]) ! 4 = None
   \<and> gapFill [Some 60, None, Some 60, None, None] = [] @ replicate 3 (Some 60) @ None # [None]
   \<and> tailExtension (gapFill [Some 60, None, Some 60, None, None])
        ! (length ([] :: int option list) + 3) = Some 60
   \<and> tailExtension (gapFill [Some 60, None, Some 60, None, None])
        ! (length ([] :: int option list) + 3 + 1) = None"
proof -
  have p3: "(0::nat) < 3" and p4: "(0::nat) < 4" by simp_all
  have f3: "freeBefore [Some 62] 60" and f4: "freeBefore [] 60" by (simp_all add: freeBefore_def)
  note t3 = tail_extension_rule [where g = "[Some 62] @ replicate 3 (Some 60) @ None # [None, Some 60]"
      and n = 3 and pre = "[Some 62]" and p = 60 and rest = "[None, Some 60]"]
  note t4 = tail_extension_rule [where g = "[] @ replicate 4 (Some 60) @ None # [Some 64]"
      and n = 4 and pre = "[]" and p = 60 and rest = "[Some 64]"]
  note t0 = tail_extension_rule [where g = "[Some 60, Some 60, Some 60, None]"]
  note t5 = tail_extension_rule [where ?g0.0 = "[Some 60, None, Some 60, None, None]"
      and n = 3 and pre = "[]" and p = 60 and rest = "[None]"]
  from t3 p3 f3 have a: "tailExtension ([Some 62] @ replicate 3 (Some 60) @ None # [None, Some 60])
        ! (length [Some (62::int)] + 3) = (if (3::nat) = 3 \<or> (3::nat) = 7 \<or> (3::nat) = 15 then Some 60 else None)
      \<and> tailExtension ([Some 62] @ replicate 3 (Some 60) @ None # [None, Some 60])
        ! (length [Some (62::int)] + 3 + 1) = None"
    by blast
  from t4 p4 f4 have b: "tailExtension ([] @ replicate 4 (Some 60) @ None # [Some 64])
        ! (length ([] :: int option list) + 4)
      = (if (4::nat) = 3 \<or> (4::nat) = 7 \<or> (4::nat) = 15 then Some 60 else None)"
    by blast
  from t0 have c: "length (tailExtension [Some 60, Some 60, Some 60, None])
      = length [Some (60::int), Some 60, Some 60, None]" by (rule conjunct1)
  from a have a': "tailExtension ([Some 62] @ replicate 3 (Some 60) @ None # [None, Some 60])
        ! (length [Some (62::int)] + 3) = Some 60
      \<and> tailExtension ([Some 62] @ replicate 3 (Some 60) @ None # [None, Some 60])
        ! (length [Some (62::int)] + 3 + 1) = None"
    by (simp only: refl simp_thms if_True)
  from b have b': "tailExtension ([] @ replicate 4 (Some 60) @ None # [Some 64])
        ! (length ([] :: int option list) + 4) = None"
    by (simp only: numeral_eq_iff num.distinct semiring_norm simp_thms if_False)
  have k1: "1 < length ([Some 62] @ replicate 3 (Some 60) @ None # [None, Some (60::int)])"
    and k4: "4 < length ([Some 62] @ replicate 3 (Some 60) @ None # [None, Some (60::int)])"
    by simp_all
  have s1: "([Some 62] @ replicate 3 (Some 60) @ None # [None, Some (60::int)]) ! 1 \<noteq> None"
    by code_simp
  have ch: "tailExtension ([Some 62] @ replicate 3 (Some 60) @ None # [None, Some 60]) ! 4
        \<noteq> ([Some 62] @ replicate 3 (Some 60) @ None # [None, Some 60]) ! 4"
    by code_simp
  from t3 k1 s1
  have d: "tailExtension ([Some 62] @ replicate 3 (Some 60) @ None # [None, Some 60]) ! 1
        = ([Some 62] @ replicate 3 (Some 60) @ None # [None, Some 60]) ! 1"
    by blast
  from t3 k4 ch
  have e: "([Some 62] @ replicate 3 (Some 60) @ None # [None, Some (60::int)]) ! 4 = None"
    by blast
  have gf: "gapFill [Some 60, None, Some 60, None, None] = [] @ replicate 3 (Some 60) @ None # [None]"
    by code_simp
  have pe: "([] :: int option list) = [] \<or> last [] \<noteq> Some (60::int)" by simp
  from t5 p3 gf pe
  have g: "tailExtension (gapFill [Some 60, None, Some 60, None, None])
        ! (length ([] :: int option list) + 3)
          = (if (3::nat) = 3 \<or> (3::nat) = 7 \<or> (3::nat) = 15 then Some 60 else None)
      \<and> tailExtension (gapFill [Some 60, None, Some 60, None, None])
        ! (length ([] :: int option list) + 3 + 1) = None"
    by blast
  from g have g': "tailExtension (gapFill [Some 60, None, Some 60, None, None])
        ! (length ([] :: int option list) + 3) = Some 60
      \<and> tailExtension (gapFill [Some 60, None, Some 60, None, None])
        ! (length ([] :: int option list) + 3 + 1) = None"
    by (simp only: refl simp_thms if_True)
  from p3 f3 a' p4 f4 b' c k1 s1 d k4 ch e gf g' show ?thesis by (intro conjI) blast+
qed

text \<open>The extension fires although two consecutive silent cells follow the run of three.\<close>

theorem tail_extension_two_silent_counterexample:
  "tailExtension [Some 60, Some 60, Some 60, None, None]
     = [Some 60, Some 60, Some 60, Some 60, None]"
  by code_simp

section \<open>Scale snapping stays in the octave\<close>

lemma keyRoot_range: "0 \<le> keyRoot key \<and> keyRoot key \<le> 11"
proof (cases "map_of rootMap key")
  case None
  then show ?thesis by (simp add: keyRoot_def)
next
  case (Some r)
  then have "(key, r) \<in> set rootMap" by (rule map_of_SomeD)
  then have "0 \<le> r \<and> r \<le> 11" by (auto simp: rootMap_def)
  with Some show ?thesis by (simp add: keyRoot_def)
qed

lemma keyIntervals_major: "keyIntervals key = majorIntervals"
proof (cases "map_of majorScaleOffsets key")
  case None
  then show ?thesis by (simp add: keyIntervals_def majorScaleOffsets_def majorIntervals_def)
next
  case (Some iv)
  then have "(key, iv) \<in> set majorScaleOffsets" by (rule map_of_SomeD)
  then have "iv = majorIntervals" by (auto simp: majorScaleOffsets_def majorIntervals_def)
  with Some show ?thesis by (simp add: keyIntervals_def)
qed

lemma jsRem_nonneg: "0 \<le> a \<Longrightarrow> jsRem a 12 = a mod 12"
  by (simp add: jsRem_def)

lemma keyScale_eq: "keyScale key = map (\<lambda>i. (keyRoot key + i) mod 12) majorIntervals"
proof -
  have "jsRem (keyRoot key + i) 12 = (keyRoot key + i) mod 12" if "i \<in> set majorIntervals" for i
  proof -
    from that have "0 \<le> i" by (auto simp: majorIntervals_def)
    with keyRoot_range [of key] show ?thesis by (intro jsRem_nonneg) simp
  qed
  then show ?thesis unfolding keyScale_def keyIntervals_major by simp
qed

lemma keyScale_range: "s \<in> set (keyScale key) \<Longrightarrow> 0 \<le> s \<and> s \<le> 11"
  by (auto simp: keyScale_eq)

lemma keyScale_nonempty: "keyScale key \<noteq> []"
  by (simp add: keyScale_eq majorIntervals_def)

lemma snapLoop_cases:
  "fst (snapLoop midi chroma ss (b, m)) = b
   \<or> (\<exists>s \<in> set ss. fst (snapLoop midi chroma ss (b, m)) = midi div 12 * 12 + s)"
proof (induction ss arbitrary: b m)
  case Nil
  then show ?case by simp
next
  case (Cons s ss)
  let ?d = "if \<bar>chroma - s\<bar> > 6 then 12 - \<bar>chroma - s\<bar> else \<bar>chroma - s\<bar>"
  show ?case
  proof (cases "?d < m")
    case True
    then have "snapLoop midi chroma (s # ss) (b, m) = snapLoop midi chroma ss (midi div 12 * 12 + s, ?d)"
      by (simp add: Let_def)
    with Cons.IH [of "midi div 12 * 12 + s" ?d] show ?thesis by auto
  next
    case False
    then have "snapLoop midi chroma (s # ss) (b, m) = snapLoop midi chroma ss (b, m)"
      by (simp add: Let_def)
    with Cons.IH [of b m] show ?thesis by auto
  qed
qed

lemma snapToScale_octave:
  "midi div 12 * 12 \<le> snapToScale midi key \<and> snapToScale midi key \<le> midi div 12 * 12 + 11"
proof (cases "jsRem midi 12 \<in> set (keyScale key)")
  case True
  then have "snapToScale midi key = midi" by (simp add: snapToScale_def Let_def)
  moreover have "midi div 12 * 12 \<le> midi \<and> midi \<le> midi div 12 * 12 + 11" by presburger
  ultimately show ?thesis by simp
next
  case False
  then have e: "snapToScale midi key = fst (snapLoop midi (jsRem midi 12) (keyScale key) (midi, 13))"
    by (simp add: snapToScale_def Let_def)
  from snapLoop_cases [of midi "jsRem midi 12" "keyScale key" midi 13]
  show ?thesis
  proof
    assume "fst (snapLoop midi (jsRem midi 12) (keyScale key) (midi, 13)) = midi"
    with e have "snapToScale midi key = midi" by simp
    moreover have "midi div 12 * 12 \<le> midi \<and> midi \<le> midi div 12 * 12 + 11" by presburger
    ultimately show ?thesis by simp
  next
    assume "\<exists>s\<in>set (keyScale key).
      fst (snapLoop midi (jsRem midi 12) (keyScale key) (midi, 13)) = midi div 12 * 12 + s"
    then obtain s where "s \<in> set (keyScale key)"
      and "snapToScale midi key = midi div 12 * 12 + s" using e by auto
    with keyScale_range [of s key] show ?thesis by simp
  qed
qed

lemma snapToScale_range:
  assumes "48 \<le> m" and "m \<le> 84"
  shows "48 \<le> snapToScale m key \<and> snapToScale m key \<le> 95
       \<and> (m \<le> 83 \<longrightarrow> snapToScale m key \<le> 83)"
proof -
  from assms have "4 \<le> m div 12 \<and> m div 12 \<le> 7 \<and> (m \<le> 83 \<longrightarrow> m div 12 \<le> 6)" by presburger
  with snapToScale_octave [of m key] show ?thesis by auto
qed

section \<open>Where the pitches of the grid come from\<close>

lemma bump_keys: "fst ` set (bump kvs n) = insert n (fst ` set kvs)"
  by (induction kvs n rule: bump.induct) auto

lemma tally_keys:
  "fst ` set (snd (tally chunk (c, kvs))) = fst ` set kvs \<union> {n. Some n \<in> set chunk}"
proof (induction chunk "(c, kvs)" arbitrary: c kvs rule: tally.induct)
  case 1
  then show ?case by simp
next
  case (2 ns nullCount counts)
  then show ?case by auto
next
  case (3 n ns nullCount counts)
  then show ?case by (auto simp: bump_keys)
qed

lemma set_objectEntries: "set (objectEntries kvs) = set kvs"
  by (auto simp: objectEntries_def)

lemma bestLoop_cases:
  "fst (bestLoop es (b, m)) = b \<or> fst (bestLoop es (b, m)) \<in> fst ` set es"
proof (induction es arbitrary: b m)
  case Nil
  then show ?case by simp
next
  case (Cons e es)
  obtain nt cnt where e: "e = (nt, cnt)" by (cases e)
  show ?case
  proof (cases "int cnt > m")
    case True
    with Cons.IH [of nt "int cnt"] e show ?thesis by auto
  next
    case False
    with Cons.IH [of b m] e show ?thesis by auto
  qed
qed

lemma gridCell_source:
  assumes "gridCell silent key chunk = Some v"
  shows "\<exists>p. Some p \<in> set chunk \<and> v = snapToScale p key"
proof -
  obtain c kvs where t: "tally chunk (0, []) = (c, kvs)" by (cases "tally chunk (0, [])")
  let ?best = "fst (bestLoop (objectEntries kvs) (-1, -1))"
  from assms t have ne: "?best \<noteq> -1" and v: "v = snapToScale ?best key"
    by (auto simp: gridCell_def Let_def split: if_splits)
  from bestLoop_cases [of "objectEntries kvs" "-1" "-1"] ne
  have "?best \<in> fst ` set kvs" by (simp add: set_objectEntries)
  moreover from tally_keys [of chunk 0 "[]"] t
  have "fst ` set kvs = {n. Some n \<in> set chunk}" by simp
  ultimately have "Some ?best \<in> set chunk" by simp
  with v show ?thesis by blast
qed

lemma buckets_source:
  "Some v \<in> set (buckets silent key spg rawNotes)
   \<Longrightarrow> \<exists>p. Some p \<in> set rawNotes \<and> v = snapToScale p key"
proof (induction silent key spg rawNotes rule: buckets.induct)
  case (1 silent key spg rawNotes)
  show ?case
  proof (cases "rawNotes = []")
    case True
    with 1(2) show ?thesis by (simp add: buckets.simps)
  next
    case False
    let ?n = "max 1 spg"
    from False 1(2)
    consider "gridCell silent key (take ?n rawNotes) = Some v"
      | "Some v \<in> set (buckets silent key spg (drop ?n rawNotes))"
      by (subst (asm) buckets.simps) auto
    then show ?thesis
    proof cases
      case 1
      from gridCell_source [OF this] obtain p
        where "Some p \<in> set (take ?n rawNotes)" and "v = snapToScale p key" by blast
      then show ?thesis by (blast dest: in_set_takeD)
    next
      case 2
      from 1(1) [OF False this] obtain p
        where "Some p \<in> set (drop ?n rawNotes)" and "v = snapToScale p key" by blast
      then show ?thesis by (blast dest: in_set_dropD)
    qed
  qed
qed

lemma gapFill_source: "x \<in> set (gapFill g) \<Longrightarrow> x \<in> set g"
proof -
  assume "x \<in> set (gapFill g)"
  then obtain k where k: "k < length g" and x: "gapFill g ! k = x"
    by (auto simp: in_set_conv_nth)
  show ?thesis
  proof (cases "isGap g k")
    case True
    with gapFill_nth [OF k] x have "x = g ! (k - 1)" by simp
    moreover from k have "k - 1 < length g" by simp
    ultimately show ?thesis by simp
  next
    case False
    with gapFill_nth [OF k] x k show ?thesis by auto
  qed
qed

lemma tailStep_source:
  assumes "i < length g" and "tailStep i g = (g', j)"
  shows "set g' \<subseteq> set g"
proof -
  have "set (g[k := g ! i]) \<subseteq> set g" for k
    using assms(1) set_update_subset_insert [of g k "g ! i"] by auto
  with assms(2) show ?thesis
    by (auto simp: tailStep_def Let_def split: prod.splits if_splits)
qed

lemma tailFrom_source: "set (tailFrom i g) \<subseteq> set g"
proof (induction i g rule: tailFrom.induct)
  case (1 i g)
  show ?case
  proof (cases "i < length g")
    case False
    then show ?thesis by (subst tailFrom.simps) simp
  next
    case True
    show ?thesis
    proof (cases "g ! i = None")
      case True
      with 1(2) \<open>i < length g\<close> show ?thesis by (subst tailFrom.simps) simp
    next
      case False
      obtain g' j where s: "tailStep i g = (g', j)" by (cases "tailStep i g")
      from 1(1) [OF True False s [symmetric]] have "set (tailFrom j g') \<subseteq> set g'" .
      with tailStep_source [OF True s] have "set (tailFrom j g') \<subseteq> set g" by blast
      then show ?thesis using s True False by (subst tailFrom.simps) simp
    qed
  qed
qed

lemma quantizeGrid_source:
  assumes "Some v \<in> set (quantizeGrid silent key spg rawNotes)"
  shows "\<exists>p. Some p \<in> set rawNotes \<and> v = snapToScale p key"
proof -
  from assms tailFrom_source have "Some v \<in> set (gapFill (buckets silent key spg rawNotes))"
    unfolding quantizeGrid_def tailExtension_def by blast
  then have "Some v \<in> set (buckets silent key spg rawNotes)" by (rule gapFill_source)
  then show ?thesis by (rule buckets_source)
qed

lemma lockUp_ge: "48 \<le> lockUp m"
  by (induction m rule: lockUp.induct) (simp add: lockUp.simps)

lemma lockUp_upper: "lockUp m = m \<or> lockUp m < 60"
proof (induction m rule: lockUp.induct)
  case (1 m)
  show ?case
  proof (cases "m < 48")
    case True
    with 1 have "lockUp (m + 12) = m + 12 \<or> lockUp (m + 12) < 60" by simp
    with True show ?thesis by (subst (1 2) lockUp.simps) auto
  next
    case False
    then show ?thesis by (simp add: lockUp.simps)
  qed
qed

lemma lockDown_le: "lockDown m \<le> 84"
  by (induction m rule: lockDown.induct) (simp add: lockDown.simps)

lemma lockDown_lower: "lockDown m = m \<or> 72 < lockDown m"
proof (induction m rule: lockDown.induct)
  case (1 m)
  show ?case
  proof (cases "m > 84")
    case True
    with 1 have "lockDown (m - 12) = m - 12 \<or> 72 < lockDown (m - 12)" by simp
    with True show ?thesis by (subst (1 2) lockDown.simps) auto
  next
    case False
    then show ?thesis by (simp add: lockDown.simps)
  qed
qed

lemma rangeLock_range: "48 \<le> rangeLock m \<and> rangeLock m \<le> 84"
  using lockDown_le [of "lockUp m"] lockDown_lower [of "lockUp m"] lockUp_ge [of m]
  unfolding rangeLock_def by linarith

text \<open>The slices \<^verbatim>\<open>analyzeFile\<close> hands to the quantizer are silent or within [48,84].\<close>

lemma rawSlice_range: "rawSlice baseClarity f2m frame = Some p \<Longrightarrow> 48 \<le> p \<and> p \<le> 84"
  using rangeLock_range by (auto simp: rawSlice_def split: prod.splits if_splits)

text \<open>
  What the quantizer does keep: when every raw slice is silent or within [48,84], every
  sounding cell of the grid is within [48,95], and within [48,84] unless the raw pitch 84
  occurs and its pitch class is not in the scale of the key. The scale snapper keeps the
  octave \<open>floor(pitch / 12)\<close> of its input.
\<close>

lemma quantizeGrid_band:
  assumes "\<forall>p. Some p \<in> set rawNotes \<longrightarrow> 48 \<le> p \<and> p \<le> 84"
    and "Some v \<in> set (quantizeGrid silent key spg rawNotes)"
  shows "48 \<le> v \<and> v \<le> 95
       \<and> (v \<le> 84 \<or> (Some 84 \<in> set rawNotes \<and> jsRem 84 12 \<notin> set (keyScale key)))
       \<and> (\<forall>m. 48 \<le> m \<and> m \<le> 83 \<longrightarrow> 48 \<le> snapToScale m key \<and> snapToScale m key \<le> 83)
       \<and> 84 \<le> snapToScale 84 key \<and> snapToScale 84 key \<le> 95"
proof -
  from quantizeGrid_source [OF assms(2)] obtain p
    where p: "Some p \<in> set rawNotes" and v: "v = snapToScale p key" by blast
  with assms(1) have r: "48 \<le> p" "p \<le> 84" by simp_all
  note s = snapToScale_range [OF r, of key]
  have "v \<le> 84 \<or> (Some 84 \<in> set rawNotes \<and> jsRem 84 12 \<notin> set (keyScale key))"
  proof (cases "p = 84")
    case False
    with r s v show ?thesis by simp
  next
    case True
    show ?thesis
    proof (cases "jsRem 84 12 \<in> set (keyScale key)")
      case True
      with \<open>p = 84\<close> v have "v = 84" by (simp add: snapToScale_def Let_def)
      then show ?thesis by simp
    next
      case False
      with \<open>p = 84\<close> p show ?thesis by simp
    qed
  qed
  moreover have "\<forall>m. 48 \<le> m \<and> m \<le> 83 \<longrightarrow> 48 \<le> snapToScale m key \<and> snapToScale m key \<le> 83"
    using snapToScale_range by simp
  moreover have "84 \<le> snapToScale 84 key \<and> snapToScale 84 key \<le> 95"
    using snapToScale_octave [of 84 key] by simp
  ultimately show ?thesis using s v by simp
qed

text \<open>
  C1 does not hold of the code. The range lock of \<^verbatim>\<open>analyzeFile\<close> lets the pitch 84 (C6)
  through, and a recording of the pitches 62, 64, 66, 67, 69, 71, 73, 84 is detected as D
  major. The pitch class 0 of 84 is not in that scale; the snapper measures the distance
  to the classes 11 and 1 around the circle (1 each), takes the first, 11, and places it
  in the octave of its input, at \<open>floor(84 / 12) * 12 + 11 = 95\<close>, eleven semitones above
  the vocal range [48,84] instead of one semitone below 84. Nothing folds the snapped
  pitch again (the range lock would give 83), so the grid cell holds 95 and the melody
  token is \<^verbatim>\<open>b'\<close>.
\<close>

theorem snapToScale_leaves_vocal_range:
  "rangeLock 84 = 84
   \<and> detectKey [62, 64, 66, 67, 69, 71, 73, 84] = ''D''
   \<and> keyScale ''D'' = [2, 4, 6, 7, 9, 11, 1]
   \<and> jsRem 84 12 = 0
   \<and> circDist 0 11 = 1 \<and> circDist 0 1 = 1
   \<and> snapToScale 84 ''D'' = 95
   \<and> rangeLock 95 = 83
   \<and> quantizeGrid (isSilent (1 / 2)) ''D'' 1
        [Some 62, Some 64, Some 66, Some 67, Some 69, Some 71, Some 73, Some 84]
      = [Some 62, Some 64, Some 66, Some 67, Some 69, Some 71, Some 73, Some 95]
   \<and> midiToAbc 95 = ''b'' @ [CHR 0x27]"
  by code_simp

section \<open>The scale snapper picks the first nearest degree\<close>

lemma circDist_bound: "circDist c s < 13"
  by (simp add: circDist_def Let_def)

text \<open>The loop returns its start value when no degree beats \<open>m\<close>; otherwise it stops at
  the first degree of least distance.\<close>

lemma snapLoop_first_min:
  "(snapLoop midi c ss (b, m) = (b, m) \<and> (\<forall>t \<in> set ss. m \<le> circDist c t))
   \<or> (\<exists>pre s post. ss = pre @ s # post
        \<and> snapLoop midi c ss (b, m) = (midi div 12 * 12 + s, circDist c s)
        \<and> circDist c s < m
        \<and> (\<forall>t \<in> set pre. circDist c s < circDist c t)
        \<and> (\<forall>t \<in> set post. circDist c s \<le> circDist c t))"
proof (induction ss arbitrary: b m)
  case Nil
  then show ?case by simp
next
  case (Cons x ss)
  have step: "snapLoop midi c (x # ss) (b, m)
      = (if circDist c x < m then snapLoop midi c ss (midi div 12 * 12 + x, circDist c x)
         else snapLoop midi c ss (b, m))"
    by (simp add: circDist_def Let_def)
  show ?case
  proof (cases "circDist c x < m")
    case True
    from Cons.IH [of "midi div 12 * 12 + x" "circDist c x"]
    show ?thesis
    proof (elim disjE conjE exE)
      assume a: "snapLoop midi c ss (midi div 12 * 12 + x, circDist c x)
          = (midi div 12 * 12 + x, circDist c x)"
        and b: "\<forall>t \<in> set ss. circDist c x \<le> circDist c t"
      have "x # ss = [] @ x # ss" by simp
      with a b True step show ?thesis by (intro disjI2 exI [of _ "[]"] exI [of _ x] exI [of _ ss]) simp
    next
      fix pre s post
      assume a: "ss = pre @ s # post"
        and b: "snapLoop midi c ss (midi div 12 * 12 + x, circDist c x)
          = (midi div 12 * 12 + s, circDist c s)"
        and c: "circDist c s < circDist c x"
        and d: "\<forall>t \<in> set pre. circDist c s < circDist c t"
        and e: "\<forall>t \<in> set post. circDist c s \<le> circDist c t"
      from a have "x # ss = (x # pre) @ s # post" by simp
      moreover from b True step have "snapLoop midi c (x # ss) (b, m)
          = (midi div 12 * 12 + s, circDist c s)" by simp
      moreover from c True have "circDist c s < m" by simp
      moreover from c d have "\<forall>t \<in> set (x # pre). circDist c s < circDist c t" by simp
      ultimately show ?thesis using e by blast
    qed
  next
    case False
    from Cons.IH [of b m]
    show ?thesis
    proof (elim disjE conjE exE)
      assume a: "snapLoop midi c ss (b, m) = (b, m)"
        and b: "\<forall>t \<in> set ss. m \<le> circDist c t"
      with False step show ?thesis by auto
    next
      fix pre s post
      assume a: "ss = pre @ s # post"
        and b: "snapLoop midi c ss (b, m) = (midi div 12 * 12 + s, circDist c s)"
        and c: "circDist c s < m"
        and d: "\<forall>t \<in> set pre. circDist c s < circDist c t"
        and e: "\<forall>t \<in> set post. circDist c s \<le> circDist c t"
      from a have "x # ss = (x # pre) @ s # post" by simp
      moreover from b False step have "snapLoop midi c (x # ss) (b, m)
          = (midi div 12 * 12 + s, circDist c s)" by simp
      moreover from c d False have "\<forall>t \<in> set (x # pre). circDist c s < circDist c t" by simp
      ultimately show ?thesis using c e by blast
    qed
  qed
qed

lemma keyRoot_names: "map keyRoot nameMap = [0, 1, 2, 3, 4, 5, 6, 7, 8, 9, 10, 11]"
  by (simp add: keyRoot_def rootMap_def nameMap_def)

lemma keyRoot_other: "key \<notin> set nameMap \<Longrightarrow> keyRoot key = 0"
proof -
  assume "key \<notin> set nameMap"
  moreover have "fst ` set rootMap = set nameMap" by (simp add: rootMap_def nameMap_def)
  ultimately have "map_of rootMap key = None" by (simp add: map_of_eq_None_iff)
  then show ?thesis by (simp add: keyRoot_def)
qed

text \<open>
  C5. The scale of a key is the major scale on the key's pitch class: the twelve key
  names of \<^verbatim>\<open>detectKey\<close> have the roots 0 to 11 in order (any other name has root 0), and
  the scale is \<open>(root + i) mod 12\<close> for \<open>i\<close> in 0, 2, 4, 5, 7, 9, 11, in this order.
  \<^verbatim>\<open>snapToScale\<close> returns a pitch whose class is in that scale unchanged. Otherwise the
  scale splits as \<open>pre @ s # post\<close> where \<open>s\<close> has the least circular distance to the pitch
  class, every degree before \<open>s\<close> is strictly farther and no degree after it is nearer
  (the first nearest degree); the result is \<open>s\<close> placed in the octave of the input:
  \<open>12 * floor(pitch / 12) + s\<close>.
\<close>

theorem snapToScale_nearest:
  "(jsRem midi 12 \<in> set (keyScale key) \<longrightarrow> snapToScale midi key = midi)
   \<and> (jsRem midi 12 \<notin> set (keyScale key) \<longrightarrow>
        (\<exists>pre s post. keyScale key = pre @ s # post
           \<and> snapToScale midi key = midi div 12 * 12 + s
           \<and> (\<forall>t \<in> set pre. circDist (jsRem midi 12) s < circDist (jsRem midi 12) t)
           \<and> (\<forall>t \<in> set post. circDist (jsRem midi 12) s \<le> circDist (jsRem midi 12) t)
           \<and> snapToScale midi key div 12 = midi div 12
           \<and> snapToScale midi key mod 12 = s))
   \<and> keyScale key = map (\<lambda>i. (keyRoot key + i) mod 12) [0, 2, 4, 5, 7, 9, 11]
   \<and> map keyRoot [''C'', ''Db'', ''D'', ''Eb'', ''E'', ''F'', ''Gb'', ''G'', ''Ab'', ''A'', ''Bb'', ''B'']
       = [0, 1, 2, 3, 4, 5, 6, 7, 8, 9, 10, 11]
   \<and> (key \<notin> set [''C'', ''Db'', ''D'', ''Eb'', ''E'', ''F'', ''Gb'', ''G'', ''Ab'', ''A'', ''Bb'', ''B'']
        \<longrightarrow> keyRoot key = 0)
   \<and> (0 \<le> midi \<longrightarrow> jsRem midi 12 = midi mod 12)"
proof (intro conjI impI)
  assume "jsRem midi 12 \<in> set (keyScale key)"
  then show "snapToScale midi key = midi" by (simp add: snapToScale_def Let_def)
next
  let ?c = "jsRem midi 12"
  assume out: "?c \<notin> set (keyScale key)"
  then have e: "snapToScale midi key = fst (snapLoop midi ?c (keyScale key) (midi, 13))"
    by (simp add: snapToScale_def Let_def)
  from keyScale_nonempty [of key] obtain x xs where ks: "keyScale key = x # xs"
    by (cases "keyScale key") auto
  from snapLoop_first_min [of midi ?c "keyScale key" midi 13]
  show "\<exists>pre s post. keyScale key = pre @ s # post
           \<and> snapToScale midi key = midi div 12 * 12 + s
           \<and> (\<forall>t \<in> set pre. circDist ?c s < circDist ?c t)
           \<and> (\<forall>t \<in> set post. circDist ?c s \<le> circDist ?c t)
           \<and> snapToScale midi key div 12 = midi div 12
           \<and> snapToScale midi key mod 12 = s"
  proof (elim disjE conjE exE)
    assume "\<forall>t \<in> set (keyScale key). 13 \<le> circDist ?c t"
    with ks have "13 \<le> circDist ?c x" by simp
    with circDist_bound [of ?c x] show ?thesis by simp
  next
    fix pre s post
    assume a: "keyScale key = pre @ s # post"
      and b: "snapLoop midi ?c (keyScale key) (midi, 13) = (midi div 12 * 12 + s, circDist ?c s)"
      and d: "\<forall>t \<in> set pre. circDist ?c s < circDist ?c t"
      and f: "\<forall>t \<in> set post. circDist ?c s \<le> circDist ?c t"
    from a have "s \<in> set (keyScale key)" by simp
    from keyScale_range [OF this] have s: "0 \<le> s" "s \<le> 11" by simp_all
    from b e have r: "snapToScale midi key = midi div 12 * 12 + s" by simp
    from s have "(midi div 12 * 12 + s) div 12 = midi div 12" by simp
    moreover from s have "(midi div 12 * 12 + s) mod 12 = s" by simp
    ultimately show ?thesis using a r d f by auto
  qed
next
  show "keyScale key = map (\<lambda>i. (keyRoot key + i) mod 12) [0, 2, 4, 5, 7, 9, 11]"
    using keyScale_eq [of key] by (simp add: majorIntervals_def)
next
  show "map keyRoot [''C'', ''Db'', ''D'', ''Eb'', ''E'', ''F'', ''Gb'', ''G'', ''Ab'', ''A'', ''Bb'', ''B'']
       = [0, 1, 2, 3, 4, 5, 6, 7, 8, 9, 10, 11]"
    using keyRoot_names by (simp only: nameMap_def)
next
  assume other: "key \<notin> set [''C'', ''Db'', ''D'', ''Eb'', ''E'', ''F'', ''Gb'', ''G'', ''Ab'', ''A'', ''Bb'', ''B'']"
  have "key \<notin> set nameMap" unfolding nameMap_def by (rule other)
  then show "keyRoot key = 0" by (rule keyRoot_other)
next
  assume "0 \<le> midi"
  then show "jsRem midi 12 = midi mod 12" by (rule jsRem_nonneg)
qed

text \<open>In D major C sharp (61) is a scale tone and stays; D sharp (63) is one semitone
  from D and from E, and the first of the two, D, wins.\<close>

theorem snapToScale_nearest_witness:
  "keyRoot ''D'' = 2 \<and> keyScale ''D'' = [2, 4, 6, 7, 9, 11, 1]
   \<and> jsRem 61 12 \<in> set (keyScale ''D'') \<and> snapToScale 61 ''D'' = 61
   \<and> jsRem 63 12 \<notin> set (keyScale ''D'') \<and> snapToScale 63 ''D'' div 12 = 63 div 12
   \<and> snapToScale 63 ''D'' = 62"
proof -
  note t = snapToScale_nearest [of _ "''D''"]
  from t [of 61] have root: "keyRoot ''D'' = 2" by simp
  with t [of 61] have scale: "keyScale ''D'' = [2, 4, 6, 7, 9, 11, 1]" by simp
  from t [of 61] have c61: "jsRem 61 12 = 1" by simp
  from t [of 63] have c63: "jsRem 63 12 = 3" by simp
  from c61 scale have in61: "jsRem 61 12 \<in> set (keyScale ''D'')" by simp
  with t [of 61] have s61: "snapToScale 61 ''D'' = 61" by blast
  from c63 scale have out63: "jsRem 63 12 \<notin> set (keyScale ''D'')" by simp
  with t [of 63] obtain pre s post where sp: "keyScale ''D'' = pre @ s # post"
    and r: "snapToScale 63 ''D'' = 63 div 12 * 12 + s"
    and before: "\<forall>t \<in> set pre. circDist (jsRem 63 12) s < circDist (jsRem 63 12) t"
    and after: "\<forall>t \<in> set post. circDist (jsRem 63 12) s \<le> circDist (jsRem 63 12) t"
    and oct: "snapToScale 63 ''D'' div 12 = 63 div 12" by blast
  have "s = 2"
  proof (cases pre)
    case Nil
    with sp scale show ?thesis by simp
  next
    case (Cons a pre')
    with sp scale have a: "a = 2" and "s \<in> set [4, 6, 7, 9, 11, 1]"
      by (auto simp: Cons_eq_append_conv dest: arg_cong [where f = set])
    then have "circDist 3 s \<ge> 1" by (auto simp: circDist_def)
    moreover from before Cons a c63 have "circDist 3 s < circDist 3 2" by simp
    ultimately show ?thesis by (simp add: circDist_def)
  qed
  with r have "snapToScale 63 ''D'' = 62" by simp
  with root scale in61 s61 out63 oct show ?thesis by simp
qed


section \<open>Key detection\<close>

lemma keyLoop_first_max:
  "(keyLoop cs rs (b, m) = (b, m) \<and> (\<forall>t \<in> set rs. matchCount cs t \<le> m))
   \<or> (\<exists>pre r post. rs = pre @ r # post
        \<and> keyLoop cs rs (b, m) = (nameMap ! r, matchCount cs r)
        \<and> m < matchCount cs r
        \<and> (\<forall>t \<in> set pre. matchCount cs t < matchCount cs r)
        \<and> (\<forall>t \<in> set post. matchCount cs t \<le> matchCount cs r))"
proof (induction rs arbitrary: b m)
  case Nil
  then show ?case by simp
next
  case (Cons x rs)
  have step: "keyLoop cs (x # rs) (b, m)
      = (if matchCount cs x > m then keyLoop cs rs (nameMap ! x, matchCount cs x)
         else keyLoop cs rs (b, m))"
    by (simp add: Let_def)
  show ?case
  proof (cases "matchCount cs x > m")
    case True
    from Cons.IH [of "nameMap ! x" "matchCount cs x"]
    show ?thesis
    proof (elim disjE conjE exE)
      assume a: "keyLoop cs rs (nameMap ! x, matchCount cs x) = (nameMap ! x, matchCount cs x)"
        and b: "\<forall>t \<in> set rs. matchCount cs t \<le> matchCount cs x"
      have "x # rs = [] @ x # rs" by simp
      with a b True step show ?thesis
        by (intro disjI2 exI [of _ "[]"] exI [of _ x] exI [of _ rs]) simp
    next
      fix pre r post
      assume a: "rs = pre @ r # post"
        and b: "keyLoop cs rs (nameMap ! x, matchCount cs x) = (nameMap ! r, matchCount cs r)"
        and c: "matchCount cs x < matchCount cs r"
        and d: "\<forall>t \<in> set pre. matchCount cs t < matchCount cs r"
        and e: "\<forall>t \<in> set post. matchCount cs t \<le> matchCount cs r"
      from a have "x # rs = (x # pre) @ r # post" by simp
      moreover from b True step have "keyLoop cs (x # rs) (b, m)
          = (nameMap ! r, matchCount cs r)" by simp
      moreover from c True have "m < matchCount cs r" by simp
      moreover from c d have "\<forall>t \<in> set (x # pre). matchCount cs t < matchCount cs r" by simp
      ultimately show ?thesis using e by blast
    qed
  next
    case False
    from Cons.IH [of b m]
    show ?thesis
    proof (elim disjE conjE exE)
      assume a: "keyLoop cs rs (b, m) = (b, m)"
        and b: "\<forall>t \<in> set rs. matchCount cs t \<le> m"
      with False step show ?thesis by auto
    next
      fix pre r post
      assume a: "rs = pre @ r # post"
        and b: "keyLoop cs rs (b, m) = (nameMap ! r, matchCount cs r)"
        and c: "m < matchCount cs r"
        and d: "\<forall>t \<in> set pre. matchCount cs t < matchCount cs r"
        and e: "\<forall>t \<in> set post. matchCount cs t \<le> matchCount cs r"
      from a have "x # rs = (x # pre) @ r # post" by simp
      moreover from b False step have "keyLoop cs (x # rs) (b, m)
          = (nameMap ! r, matchCount cs r)" by simp
      moreover from c d False have "\<forall>t \<in> set (x # pre). matchCount cs t < matchCount cs r" by simp
      ultimately show ?thesis using c e by blast
    qed
  qed
qed

lemma upt_split:
  assumes "[0..<n] = pre @ r # post"
  shows "r < n \<and> (\<forall>t \<in> set pre. t < r) \<and> (\<forall>t \<in> set post. r < t)
       \<and> set pre \<union> {r} \<union> set post = {0..<n}"
proof -
  have "sorted_wrt (<) [0..<n]" by simp
  then have "sorted_wrt (<) (pre @ r # post)" by (simp only: assms)
  then have "(\<forall>t \<in> set pre. t < r) \<and> (\<forall>t \<in> set post. r < t)"
    by (auto simp: sorted_wrt_append)
  moreover have "set pre \<union> {r} \<union> set post = set [0..<n]" by (simp only: assms) auto
  moreover have "r \<in> set [0..<n]" by (simp only: assms) simp
  ultimately show ?thesis by simp
qed

text \<open>With at least five pitches the result names the least root of greatest count.\<close>

lemma detectKey_argmax:
  assumes "5 \<le> length ns"
  shows "\<exists>r < 12. detectKey ns = nameMap ! r
       \<and> (\<forall>t < 12. matchCount (map (\<lambda>m. jsRem m 12) ns) t \<le> matchCount (map (\<lambda>m. jsRem m 12) ns) r)
       \<and> (\<forall>t < r. matchCount (map (\<lambda>m. jsRem m 12) ns) t < matchCount (map (\<lambda>m. jsRem m 12) ns) r)"
proof -
  let ?cs = "map (\<lambda>m. jsRem m 12) ns"
  from assms have e: "detectKey ns = fst (keyLoop ?cs [0..<12] (''C'', -1))"
    by (simp add: detectKey_def)
  from keyLoop_first_max [of ?cs "[0..<12]" "''C''" "-1"]
  show ?thesis
  proof (elim disjE conjE exE)
    assume "\<forall>t \<in> set [0..<12]. matchCount ?cs t \<le> -1"
    then have "matchCount ?cs 0 \<le> -1" by simp
    then show ?thesis by (simp add: matchCount_def)
  next
    fix pre r post
    assume a: "[0..<12] = pre @ r # post"
      and b: "keyLoop ?cs [0..<12] (''C'', -1) = (nameMap ! r, matchCount ?cs r)"
      and d: "\<forall>t \<in> set pre. matchCount ?cs t < matchCount ?cs r"
      and f: "\<forall>t \<in> set post. matchCount ?cs t \<le> matchCount ?cs r"
    from upt_split [OF a] have r: "r < 12" and pre: "\<forall>t \<in> set pre. t < r"
      and post: "\<forall>t \<in> set post. r < t"
      and all: "set pre \<union> {r} \<union> set post = {0..<12}" by simp_all
    have le: "matchCount ?cs t \<le> matchCount ?cs r" if "t < 12" for t
    proof -
      from that have "t \<in> {0..<12}" by simp
      with all have "t \<in> set pre \<or> t = r \<or> t \<in> set post" by blast
      with d f show ?thesis by (auto intro: less_imp_le)
    qed
    have less: "matchCount ?cs t < matchCount ?cs r" if "t < r" for t
    proof -
      from that r have "t \<in> {0..<12}" by simp
      with all have "t \<in> set pre \<or> t = r \<or> t \<in> set post" by blast
      with that post have "t \<in> set pre" by fastforce
      with d show ?thesis by simp
    qed
    from b e have "detectKey ns = nameMap ! r" by simp
    with r le less show ?thesis by blast
  qed
qed

lemma matchCount_le: "matchCount cs r \<le> int (length cs)"
  by (simp add: matchCount_def)

lemma matchCount_all: "(\<forall>c \<in> set cs. c \<in> set (rootScale r)) \<Longrightarrow> matchCount cs r = int (length cs)"
  by (simp add: matchCount_def)

lemma matchCount_less:
  "c \<in> set cs \<Longrightarrow> c \<notin> set (rootScale r) \<Longrightarrow> matchCount cs r < int (length cs)"
  by (simp add: matchCount_def length_filter_less)

lemma rootScale_7: "rootScale 7 = [7, 9, 11, 0, 2, 4, 6]"
  by code_simp

lemma gmajor_table:
  "list_all (\<lambda>r. list_all (\<lambda>c. 0 \<notin> set (rootScale r) \<or> 6 \<notin> set (rootScale r)
      \<or> c \<notin> set (rootScale r)) [7, 9, 11, 2, 4]) [0..<7]"
  by code_simp

lemma gmajor_excludes_lower_roots:
  assumes "r < 7" and "c \<in> set (rootScale 7)" and "c \<noteq> 0" and "c \<noteq> 6"
  shows "0 \<notin> set (rootScale r) \<or> 6 \<notin> set (rootScale r) \<or> c \<notin> set (rootScale r)"
proof -
  from assms(2-4) have c: "c \<in> set [7, 9, 11, 2, 4]" unfolding rootScale_7 by auto
  from assms(1) have r: "r \<in> set [0..<7]" by simp
  from gmajor_table r c show ?thesis unfolding list_all_iff by blast
qed

text \<open>
  C4, as the code has it. Fewer than five pitches give C. Otherwise the result names the
  root of greatest count, the least such root: no root has a greater count and every
  lower root has a strictly smaller one. So pitches of C-major classes only give C.
  Pitches of G-major classes only give G when at least five are given and the classes
  0 (C) and 6 (F sharp) and one further class occur among them; without that a lower
  root ties and wins.
\<close>

theorem detectKey_rule:
  "(length ns < 5 \<longrightarrow> detectKey ns = ''C'')
   \<and> (5 \<le> length ns \<longrightarrow>
        (\<exists>r < 12. detectKey ns = nameMap ! r
           \<and> (\<forall>t < 12. matchCount (map (\<lambda>m. jsRem m 12) ns) t
                          \<le> matchCount (map (\<lambda>m. jsRem m 12) ns) r)
           \<and> (\<forall>t < r. matchCount (map (\<lambda>m. jsRem m 12) ns) t
                         < matchCount (map (\<lambda>m. jsRem m 12) ns) r)))
   \<and> ((\<forall>n \<in> set ns. jsRem n 12 \<in> set (rootScale 0)) \<longrightarrow> detectKey ns = ''C'')
   \<and> (5 \<le> length ns \<and> (\<forall>n \<in> set ns. jsRem n 12 \<in> set (rootScale 7))
        \<and> (\<exists>a \<in> set ns. jsRem a 12 = 0) \<and> (\<exists>b \<in> set ns. jsRem b 12 = 6)
        \<and> (\<exists>c \<in> set ns. jsRem c 12 \<noteq> 0 \<and> jsRem c 12 \<noteq> 6)
       \<longrightarrow> detectKey ns = ''G'')"
proof (intro conjI impI)
  assume "length ns < 5"
  then show "detectKey ns = ''C''" by (simp add: detectKey_def)
next
  assume "5 \<le> length ns"
  then show "\<exists>r < 12. detectKey ns = nameMap ! r
           \<and> (\<forall>t < 12. matchCount (map (\<lambda>m. jsRem m 12) ns) t
                          \<le> matchCount (map (\<lambda>m. jsRem m 12) ns) r)
           \<and> (\<forall>t < r. matchCount (map (\<lambda>m. jsRem m 12) ns) t
                         < matchCount (map (\<lambda>m. jsRem m 12) ns) r)"
    by (rule detectKey_argmax)
next
  let ?cs = "map (\<lambda>m. jsRem m 12) ns"
  assume c: "\<forall>n \<in> set ns. jsRem n 12 \<in> set (rootScale 0)"
  show "detectKey ns = ''C''"
  proof (cases "length ns < 5")
    case True
    then show ?thesis by (simp add: detectKey_def)
  next
    case False
    then have "5 \<le> length ns" by simp
    from detectKey_argmax [OF this] obtain r where r: "detectKey ns = nameMap ! r"
      and less: "\<forall>t < r. matchCount ?cs t < matchCount ?cs r" by blast
    from c have "matchCount ?cs 0 = int (length ?cs)" by (intro matchCount_all) simp
    with matchCount_le [of ?cs r] have "\<not> matchCount ?cs 0 < matchCount ?cs r" by simp
    with less have "r = 0" by (cases "r = 0") auto
    with r show ?thesis by (simp add: nameMap_def)
  qed
next
  let ?cs = "map (\<lambda>m. jsRem m 12) ns"
  assume h: "5 \<le> length ns \<and> (\<forall>n \<in> set ns. jsRem n 12 \<in> set (rootScale 7))
        \<and> (\<exists>a \<in> set ns. jsRem a 12 = 0) \<and> (\<exists>b \<in> set ns. jsRem b 12 = 6)
        \<and> (\<exists>c \<in> set ns. jsRem c 12 \<noteq> 0 \<and> jsRem c 12 \<noteq> 6)"
  then obtain c where c: "c \<in> set ?cs" "c \<noteq> 0" "c \<noteq> 6" by auto
  from h have zero: "0 \<in> set ?cs" and six: "6 \<in> set ?cs" by force+
  from h c(1) have cg: "c \<in> set (rootScale 7)" by auto
  from h have "5 \<le> length ns" by simp
  from detectKey_argmax [OF this] obtain r where r12: "r < 12"
    and r: "detectKey ns = nameMap ! r"
    and le: "\<forall>t < 12. matchCount ?cs t \<le> matchCount ?cs r"
    and less: "\<forall>t < r. matchCount ?cs t < matchCount ?cs r" by blast
  from h have full: "matchCount ?cs 7 = int (length ?cs)" by (intro matchCount_all) simp
  have "\<not> 7 < r"
  proof
    assume "7 < r"
    with less have "matchCount ?cs 7 < matchCount ?cs r" by simp
    with full matchCount_le [of ?cs r] show False by simp
  qed
  moreover have "\<not> r < 7"
  proof
    assume lt: "r < 7"
    from le have "matchCount ?cs 7 \<le> matchCount ?cs r" by simp
    with full matchCount_le [of ?cs r] have eq: "matchCount ?cs r = int (length ?cs)" by simp
    from gmajor_excludes_lower_roots [OF lt cg c(2,3)]
    have "matchCount ?cs r < int (length ?cs)"
      using matchCount_less [OF zero] matchCount_less [OF six] matchCount_less [OF c(1)] by blast
    with eq show False by simp
  qed
  ultimately have "r = 7" by simp
  with r show "detectKey ns = ''G''" by (simp add: nameMap_def)
qed

theorem detectKey_rule_witness:
  "detectKey [60, 62, 64] = ''C''
   \<and> detectKey [60, 62, 64, 65, 67, 69, 71] = ''C''
   \<and> detectKey [67, 69, 71, 72, 74, 76, 78] = ''G''"
proof -
  have c: "\<forall>n \<in> set [60, 62, 64, 65, 67, 69, 71]. jsRem n 12 \<in> set (rootScale 0)"
    by code_simp
  have g: "5 \<le> length [67, 69, 71, 72, 74, 76, 78 :: int]
      \<and> (\<forall>n \<in> set [67, 69, 71, 72, 74, 76, 78]. jsRem n 12 \<in> set (rootScale 7))
      \<and> (\<exists>a \<in> set [67, 69, 71, 72, 74, 76, 78]. jsRem a 12 = 0)
      \<and> (\<exists>b \<in> set [67, 69, 71, 72, 74, 76, 78]. jsRem b 12 = 6)
      \<and> (\<exists>c \<in> set [67, 69, 71, 72, 74, 76, 78]. jsRem c 12 \<noteq> 0 \<and> jsRem c 12 \<noteq> 6)"
    by code_simp
  have s: "length [60, 62, 64 :: int] < 5" by simp
  from detectKey_rule [of "[60, 62, 64]"] s have a: "detectKey [60, 62, 64] = ''C''" by blast
  from detectKey_rule [of "[60, 62, 64, 65, 67, 69, 71]"] c
  have b: "detectKey [60, 62, 64, 65, 67, 69, 71] = ''C''" by blast
  from detectKey_rule [of "[67, 69, 71, 72, 74, 76, 78]"] g
  have "detectKey [67, 69, 71, 72, 74, 76, 78] = ''G''" by blast
  with a b show ?thesis by simp
qed

text \<open>Pitches of G-major classes only, and the result is not G: five times the pitch G
  gives C, and D, F sharp, G, A, B, D give D.\<close>

theorem detectKey_gmajor_counterexample:
  "rootScale 7 = [7, 9, 11, 0, 2, 4, 6]
   \<and> jsRem 67 12 = 7 \<and> detectKey [67, 67, 67, 67, 67] = ''C''
   \<and> jsRem 62 12 = 2 \<and> jsRem 66 12 = 6 \<and> jsRem 69 12 = 9 \<and> jsRem 71 12 = 11
   \<and> jsRem 74 12 = 2 \<and> detectKey [62, 66, 67, 69, 71, 74] = ''D''"
  by code_simp

section \<open>The encoder emits the bars of the grid\<close>

lemma pushNote_tokens:
  "0 < d \<Longrightarrow> pushNote q lst d st
     = st\<lparr>melRes := melRes st @ [melTok q (Ev lst d)], harRes := harRes st @ [harTok q (Ev lst d)]\<rparr>"
  by (cases lst) (simp_all add: pushNote_def Let_def)

lemma encodeFrom_events:
  "melRes (flush q (encodeFrom q i cs st))
      = melRes st @ map (melTok q) (evLoop q i cs (lastNote st, duration st))
   \<and> harRes (flush q (encodeFrom q i cs st))
      = harRes st @ map (harTok q) (evLoop q i cs (lastNote st, duration st))"
proof (induction cs arbitrary: i st)
  case Nil
  then show ?case by (simp add: flush_def pushNote_tokens)
next
  case (Cons c cs)
  let ?st = "consume q c (barCheck q i st)"
  note ih = Cons.IH [of "i + 1" ?st]
  show ?case
  proof (cases "i > 0 \<and> i mod q = 0")
    case True
    then show ?thesis using ih
      by (cases "duration st > 0") (simp_all add: barCheck_def consume_def pushNote_tokens Let_def)
  next
    case False
    then have b: "barCheck q i st = st" by (auto simp: barCheck_def)
    show ?thesis
    proof (cases "duration st = 0")
      case True
      with False ih b show ?thesis by (auto simp: consume_def)
    next
      case d: False
      show ?thesis
      proof (cases "c = lastNote st")
        case True
        with False d ih b show ?thesis by (auto simp: consume_def)
      next
        case False
        with \<open>\<not> (i > 0 \<and> i mod q = 0)\<close> d ih b show ?thesis
          by (auto simp: consume_def pushNote_tokens)
      qed
    qed
  qed
qed

lemma encodeGrid_events:
  "encodeGrid q g = (map (melTok q) (evLoop q 0 g (None, 0)), map (harTok q) (evLoop q 0 g (None, 0)))"
  using encodeFrom_events [of q 0 g encInit]
  by (simp add: encodeGrid_def Let_def flush_def encInit_def)

lemma rle_same: "rle lst d (lst # cs) = rle lst (d + 1) cs"
  by (simp add: rle_def)

lemma rle_other: "c \<noteq> lst \<Longrightarrow> rle lst d (c # cs) = Ev lst d # rle c 1 cs"
  by (simp add: rle_def runEvents_def)

lemma rle_start: "runEvents (c # cs) = rle c 1 cs"
  by (simp add: rle_def runEvents_def)

text \<open>Inside a bar the loop run-length encodes.\<close>

lemma evLoop_in_bar:
  "0 < d \<Longrightarrow> (\<And>j. j < length cs \<Longrightarrow> (i + j) mod q \<noteq> 0)
   \<Longrightarrow> evLoop q i cs (lst, d) = rle lst d cs"
proof (induction cs arbitrary: i lst d)
  case Nil
  then show ?case by (simp add: rle_def runEvents_def)
next
  case (Cons c cs)
  from Cons.prems(2) [of 0] have nb: "i mod q \<noteq> 0" by simp
  have inner: "(i + 1 + j) mod q \<noteq> 0" if "j < length cs" for j
    using Cons.prems(2) [of "Suc j"] that by simp
  show ?case
  proof (cases "c = lst")
    case True
    have "evLoop q (i + 1) cs (lst, d + 1) = rle lst (d + 1) cs"
      by (rule Cons.IH) (simp, rule inner)
    with True nb Cons.prems(1) show ?thesis by (simp add: rle_same)
  next
    case False
    have "evLoop q (i + 1) cs (c, 1) = rle c 1 cs"
      by (rule Cons.IH) (simp, rule inner)
    with False nb Cons.prems(1) show ?thesis by (simp add: rle_other)
  qed
qed

text \<open>At the first cell of the next bar the pending run is flushed and a marker follows.\<close>

lemma evLoop_bar_end:
  "0 < d \<Longrightarrow> (\<And>j. j < length cs \<Longrightarrow> (i + j) mod q \<noteq> 0)
   \<Longrightarrow> 0 < i + length cs \<Longrightarrow> (i + length cs) mod q = 0
   \<Longrightarrow> evLoop q i (cs @ c # rest) (lst, d)
       = rle lst d cs @ [Bar] @ evLoop q (i + length cs + 1) rest (c, 1)"
proof (induction cs arbitrary: i lst d)
  case Nil
  then show ?case by (simp add: rle_def runEvents_def)
next
  case (Cons x cs)
  from Cons.prems(2) [of 0] have nb: "i mod q \<noteq> 0" by simp
  have inner: "(i + 1 + j) mod q \<noteq> 0" if "j < length cs" for j
    using Cons.prems(2) [of "Suc j"] that by simp
  from Cons.prems(4) have e: "(i + 1 + length cs) mod q = 0" by simp
  have pos: "0 < i + 1 + length cs" by simp
  show ?case
  proof (cases "x = lst")
    case True
    have "evLoop q (i + 1) (cs @ c # rest) (lst, d + 1)
        = rle lst (d + 1) cs @ [Bar] @ evLoop q (i + 1 + length cs + 1) rest (c, 1)"
      by (rule Cons.IH) (simp, rule inner, assumption, rule pos, rule e)
    with True nb Cons.prems(1) show ?thesis by (simp add: rle_same)
  next
    case False
    have "evLoop q (i + 1) (cs @ c # rest) (x, 1)
        = rle x 1 cs @ [Bar] @ evLoop q (i + 1 + length cs + 1) rest (c, 1)"
      by (rule Cons.IH) (simp, rule inner, assumption, rule pos, rule e)
    with False nb Cons.prems(1) show ?thesis by (simp add: rle_other)
  qed
qed

lemma barsOf_Nil [simp]: "barsOf q [] = []"
  by (simp add: barsOf.simps)

lemma barsOf_Cons:
  "0 < q \<Longrightarrow> barsOf q (c # cs) = (c # take (q - 1) cs) # barsOf q (drop (q - 1) cs)"
  by (subst barsOf.simps) (simp add: take_Cons' drop_Cons')

lemma evLoop_bars:
  "0 < q \<Longrightarrow> i mod q = 0
   \<Longrightarrow> evLoop q (i + 1) cs (c, 1) = joinBars (map runEvents (barsOf q (c # cs)))"
proof (induction "length cs" arbitrary: i c cs rule: less_induct)
  case less
  let ?pre = "take (q - 1) cs"
  have in_bar: "(i + 1 + j) mod q \<noteq> 0" if "j < length ?pre" for j
  proof -
    from that have lt: "1 + j < q" by auto
    have "(i + 1 + j) mod q = (i + (1 + j)) mod q" by (simp only: add.assoc)
    also have "\<dots> = (i mod q + (1 + j)) mod q" by (rule mod_add_left_eq [symmetric])
    also have "\<dots> = 1 + j" using less.prems(2) lt by simp
    finally show ?thesis by simp
  qed
  show ?case
  proof (cases "drop (q - 1) cs")
    case Nil
    then have all: "?pre = cs" by simp
    have "evLoop q (i + 1) cs (c, 1) = rle c 1 cs"
      using in_bar unfolding all by (intro evLoop_in_bar) simp_all
    with Nil less.prems(1) show ?thesis
      by (simp add: barsOf_Cons all rle_start)
  next
    case (Cons c' rest)
    then have len: "length ?pre = q - 1" by (cases "q - 1 < length cs") auto
    have split: "cs = ?pre @ c' # rest" using Cons by (metis append_take_drop_id)
    have shorter: "length rest < length cs"
      using arg_cong [OF Cons, of length] by simp
    have bound: "(i + 1 + length ?pre) mod q = 0"
      using len less.prems by simp
    have "evLoop q (i + 1) (?pre @ c' # rest) (c, 1)
        = rle c 1 ?pre @ [Bar] @ evLoop q (i + 1 + length ?pre + 1) rest (c', 1)"
      using in_bar bound by (intro evLoop_bar_end) simp_all
    moreover have "i + 1 + length ?pre + 1 = (i + q) + 1" using len less.prems(1) by simp
    moreover have "evLoop q ((i + q) + 1) rest (c', 1)
        = joinBars (map runEvents (barsOf q (c' # rest)))"
      using less.prems by (intro less.hyps [OF shorter]) simp_all
    moreover have "barsOf q (c' # rest) \<noteq> []" using less.prems(1) by (simp add: barsOf_Cons)
    then obtain b bs where "barsOf q (c' # rest) = b # bs" by (cases "barsOf q (c' # rest)") auto
    ultimately show ?thesis using less.prems(1) Cons split
      by (simp add: barsOf_Cons rle_start)
  qed
qed

lemma evLoop_barEvents: "0 < q \<Longrightarrow> evLoop q 0 g (None, 0) = barEvents q g"
proof (cases g)
  case Nil
  then show ?thesis by (simp add: barEvents_def)
next
  case (Cons c cs)
  assume "0 < q"
  from evLoop_bars [OF this, of 0 cs c] Cons show ?thesis
    by (simp add: barEvents_def runEvents_def [abs_def])
qed

lemma bar_not_noteHead: "CHR ''|'' \<notin> noteHeads" and z_not_noteHead: "CHR ''z'' \<notin> noteHeads"
  by (simp_all add: noteHeads_def)

lemma note_token_shape:
  "midiToAbc n @ s \<noteq> ''|'' \<and> \<not> startsWith (midiToAbc n @ s) ''z''"
proof -
  from midiToAbc_head [of n] obtain h t where m: "midiToAbc n = h # t" and h: "h \<in> noteHeads"
    by (cases "midiToAbc n") auto
  from h bar_not_noteHead z_not_noteHead have "h \<noteq> CHR ''|''" and "h \<noteq> CHR ''z''" by auto
  with m show ?thesis by (simp add: startsWith_def)
qed

lemma melTok_bar: "(melTok q e = ''|'') = (e = Bar)"
proof (cases e)
  case (Ev n d)
  then show ?thesis using note_token_shape by (cases n) (simp_all add: midiToAbc_safe)
next
  case Bar
  then show ?thesis by simp
qed

lemma harTok_bar: "(harTok q e = ''|'') = (e = Bar)"
proof (cases e)
  case (Ev n d)
  then show ?thesis using note_token_shape by (cases n) (simp_all add: midiToAbc_safe)
next
  case Bar
  then show ?thesis by simp
qed

lemma concat_barsOf: "0 < q \<Longrightarrow> concat (barsOf q g) = g"
proof (induction q g rule: barsOf.induct)
  case (1 q g)
  then show ?case by (subst barsOf.simps) auto
qed

lemma barsOf_lengths: "b \<in> set (barsOf q g) \<Longrightarrow> 0 < length b \<and> length b \<le> q"
proof (induction q g rule: barsOf.induct)
  case (1 q g)
  show ?case
  proof (cases "q = 0 \<or> g = []")
    case True
    with 1(2) show ?thesis by (simp add: barsOf.simps)
  next
    case False
    with 1(2) have "b = take q g \<or> b \<in> set (barsOf q (drop q g))"
      by (subst (asm) barsOf.simps) auto
    with 1(1) False show ?thesis by auto
  qed
qed

lemma barsOf_full: "b \<in> set (butlast (barsOf q g)) \<Longrightarrow> length b = q"
proof (induction q g rule: barsOf.induct)
  case (1 q g)
  show ?case
  proof (cases "q = 0 \<or> g = []")
    case True
    with 1(2) show ?thesis by (simp add: barsOf.simps)
  next
    case False
    then have e: "barsOf q g = take q g # barsOf q (drop q g)" by (subst barsOf.simps) simp
    show ?thesis
    proof (cases "barsOf q (drop q g) = []")
      case True
      with e 1(2) show ?thesis by simp
    next
      case ne: False
      then have "drop q g \<noteq> []" by auto
      then have "q \<le> length g" by simp
      moreover from e ne 1(2) have "b = take q g \<or> b \<in> set (butlast (barsOf q (drop q g)))"
        by auto
      ultimately show ?thesis using 1(1) False by auto
    qed
  qed
qed

lemma length_barsOf: "0 < q \<Longrightarrow> g \<noteq> [] \<Longrightarrow> length (barsOf q g) = Suc ((length g - 1) div q)"
proof (induction q g rule: barsOf.induct)
  case (1 q g)
  then have e: "barsOf q g = take q g # barsOf q (drop q g)" by (subst barsOf.simps) simp
  show ?case
  proof (cases "drop q g = []")
    case True
    then have "length g - 1 < q" using 1(3) by (cases g) auto
    with e True show ?thesis by simp
  next
    case False
    then have lt: "q < length g" by simp
    from 1(1) 1(2) 1(3) False have "length (barsOf q (drop q g)) = Suc ((length g - q - 1) div q)"
      by simp
    moreover from lt have split: "length g - 1 = (length g - q - 1) + q" by simp
    have "((length g - q - 1) + q) div q = Suc ((length g - q - 1) div q)"
      using 1(2) by simp
    with split have "(length g - 1) div q = Suc ((length g - q - 1) div q)" by (simp only:)
    ultimately show ?thesis using e by (simp only: list.size length_Cons)
  qed
qed

lemma runs_expand: "concat (map (\<lambda>(x, n). replicate n x) (runs xs)) = xs"
proof (induction xs rule: runs.induct)
  case 1
  then show ?case by simp
next
  case (2 x xs)
  have "replicate (length (takeWhile ((=) x) xs)) x = takeWhile ((=) x) xs"
    by (rule sym, rule replicate_length_same [symmetric]) (auto dest: set_takeWhileD)
  with 2 show ?case by simp
qed

lemma runEvents_no_bar: "Bar \<notin> set (runEvents b)"
  by (auto simp: runEvents_def)

lemma joinBars_count:
  "(\<And>b. b \<in> set bs \<Longrightarrow> Bar \<notin> set b)
   \<Longrightarrow> length (filter (\<lambda>e. e = Bar) (joinBars bs)) = length bs - 1"
proof (induction bs rule: joinBars.induct)
  case 1
  then show ?case by simp
next
  case (2 b)
  then have "filter (\<lambda>e. e = Bar) b = []" by (auto simp: filter_empty_conv)
  then show ?case by simp
next
  case (3 b b' bs)
  then have "filter (\<lambda>e. e = Bar) b = []" by (auto simp: filter_empty_conv)
  with 3 show ?case by simp
qed

lemma barEvents_count: "0 < q \<Longrightarrow> length (filter (\<lambda>e. e = Bar) (barEvents q g)) = (length g - 1) div q"
proof (cases "g = []")
  case True
  then show ?thesis by (simp add: barEvents_def)
next
  case False
  assume "0 < q"
  have "length (filter (\<lambda>e. e = Bar) (joinBars (map runEvents (barsOf q g))))
      = length (map runEvents (barsOf q g)) - 1"
    by (rule joinBars_count) (auto simp: runEvents_no_bar)
  with length_barsOf [OF \<open>0 < q\<close> False] show ?thesis
    by (simp add: barEvents_def runEvents_def [abs_def])
qed

text \<open>
  C3, as the code has it. The token sequences of the encoder are the bars of the grid,
  each run-length encoded, with one marker between two consecutive bars: every bar but
  the last has exactly \<open>qValue\<close> cells, the last has between 1 and \<open>qValue\<close>, the runs of a
  bar consume exactly its cells, and no marker follows the last bar, also when it is
  full. So a marker stands after every \<open>qValue\<close> consumed cells that a further cell
  follows, and the grid of \<open>n\<close> cells has \<open>(n - 1) div qValue\<close> markers.
\<close>

theorem bar_markers_between_bars:
  assumes "0 < qValue"
  shows "encodeGrid qValue g
           = (map (melTok qValue) (barEvents qValue g), map (harTok qValue) (barEvents qValue g))
       \<and> (\<forall>e. (melTok qValue e = ''|'') = (e = Bar))
       \<and> (\<forall>e. (harTok qValue e = ''|'') = (e = Bar))
       \<and> concat (barsOf qValue g) = g
       \<and> (\<forall>b \<in> set (butlast (barsOf qValue g)). length b = qValue)
       \<and> (\<forall>b \<in> set (barsOf qValue g). 0 < length b \<and> length b \<le> qValue
             \<and> concat (map (\<lambda>(x, n). replicate n x) (runs b)) = b)
       \<and> length (filter (\<lambda>t. t = ''|'') (fst (encodeGrid qValue g))) = (length g - 1) div qValue
       \<and> length (filter (\<lambda>t. t = ''|'') (snd (encodeGrid qValue g))) = (length g - 1) div qValue"
proof -
  have enc: "encodeGrid qValue g
      = (map (melTok qValue) (barEvents qValue g), map (harTok qValue) (barEvents qValue g))"
    using encodeGrid_events [of qValue g] evLoop_barEvents [OF assms, of g] by simp
  have "filter (\<lambda>t. t = ''|'') (map (melTok qValue) evs)
      = map (melTok qValue) (filter (\<lambda>e. e = Bar) evs)" for evs
    by (simp add: filter_map o_def melTok_bar)
  then have cm: "length (filter (\<lambda>t. t = ''|'') (fst (encodeGrid qValue g)))
      = (length g - 1) div qValue"
    using enc barEvents_count [OF assms, of g] by simp
  have "filter (\<lambda>t. t = ''|'') (map (harTok qValue) evs)
      = map (harTok qValue) (filter (\<lambda>e. e = Bar) evs)" for evs
    by (simp add: filter_map o_def harTok_bar)
  then have ch: "length (filter (\<lambda>t. t = ''|'') (snd (encodeGrid qValue g)))
      = (length g - 1) div qValue"
    using enc barEvents_count [OF assms, of g] by simp
  have mb: "\<forall>e. (melTok qValue e = ''|'') = (e = Bar)" by (simp add: melTok_bar)
  have hb: "\<forall>e. (harTok qValue e = ''|'') = (e = Bar)" by (simp add: harTok_bar)
  have cc: "concat (barsOf qValue g) = g" by (rule concat_barsOf [OF assms])
  have full: "\<forall>b \<in> set (butlast (barsOf qValue g)). length b = qValue"
    using barsOf_full by blast
  have each: "\<forall>b \<in> set (barsOf qValue g). 0 < length b \<and> length b \<le> qValue
      \<and> concat (map (\<lambda>(x, n). replicate n x) (runs b)) = b"
    using barsOf_lengths runs_expand by blast
  show ?thesis by (intro conjI) (fact enc mb hb cc full each cm ch)+
qed

theorem bar_markers_between_bars_witness:
  "(0::nat) < 4
   \<and> encodeGrid 4 [Some 60, Some 60, Some 62, None, None, Some 64]
        = ([''C4'', ''D2'', ''z2'', ''|'', ''z2'', ''E2''], [''C,4'', ''D,2'', ''z2'', ''|'', ''z2'', ''E,2''])
   \<and> length (filter (\<lambda>t. t = ''|'') (fst (encodeGrid 4 [Some 60, Some 60, Some 62, None, None, Some 64])))
        = (length [Some 60, Some 60, Some 62, None, None, Some (64::int)] - 1) div 4"
proof -
  let ?g = "[Some 60, Some 60, Some 62, None, None, Some (64::int)]"
  have pos: "(0::nat) < 4" by simp
  have e: "encodeGrid 4 ?g
        = ([''C4'', ''D2'', ''z2'', ''|'', ''z2'', ''E2''], [''C,4'', ''D,2'', ''z2'', ''|'', ''z2'', ''E,2''])"
    by code_simp
  from bar_markers_between_bars [OF pos, of ?g]
  have "length (filter (\<lambda>t. t = ''|'') (fst (encodeGrid 4 ?g))) = (length ?g - 1) div 4"
    by blast
  with pos e show ?thesis by (intro conjI)
qed

text \<open>A grid of exactly \<open>qValue\<close> cells is consumed without any marker, and a grid of
  twice \<open>qValue\<close> cells has one marker, not two.\<close>

theorem bar_markers_exact_multiple_counterexample:
  "encodeGrid 4 [Some 60, Some 60, Some 60, Some 60] = ([''C8''], [''C,8''])
   \<and> encodeGrid 4 [Some 60, Some 60, Some 60, Some 60, Some 62, Some 62, Some 62, Some 62]
        = ([''C8'', ''|'', ''D8''], [''C,8'', ''|'', ''D,8''])"
  by code_simp

section \<open>Melody and harmony stay aligned\<close>

lemma aligned_iff:
  "aligned mel har \<longleftrightarrow>
     length mel = length har
     \<and> (\<forall>i < length mel. ((mel ! i = ''|'') = (har ! i = ''|''))
           \<and> (isRest (mel ! i) = isRest (har ! i)))"
  by (auto simp: aligned_def tokAligned_def list_all2_conv_all_nth)

lemma note_tokens_aligned: "tokAligned (midiToAbc m @ s) (midiToAbc h @ t)"
  using note_token_shape [of m s] note_token_shape [of h t]
  by (simp add: tokAligned_def isRest_def)

lemma event_tokens_aligned: "tokAligned (melTok q e) (harTok q e)"
proof (cases e)
  case (Ev n d)
  then show ?thesis
    by (cases n) (simp_all add: midiToAbc_safe note_tokens_aligned, simp add: tokAligned_def)
next
  case Bar
  then show ?thesis by (simp add: tokAligned_def)
qed

lemma encodeGrid_aligned: "aligned (fst (encodeGrid q g)) (snd (encodeGrid q g))"
  by (simp add: encodeGrid_events aligned_def list_all2_map1 list_all2_map2
      list_all2_same event_tokens_aligned)

lemma bar_aligned: "tokAligned ''|'' ''|''"
  by (simp add: tokAligned_def)

lemma confirm_aligned:
  assumes "aligned (melodyBuffer st) (harmonyBuffer st)"
  shows "aligned (melodyBuffer (confirm q midi st)) (harmonyBuffer (confirm q midi st))"
proof -
  let ?mel = "melodyBuffer st" and ?har = "harmonyBuffer st"
  let ?bar = "if gridUnitsFilled st + 1 \<ge> q then [''|''] else []"
  from assms have a: "list_all2 tokAligned ?mel ?har" by (simp add: aligned_def)
  then have len: "length ?mel = length ?har" by (rule list_all2_lengthD)
  have bar: "list_all2 tokAligned ?bar ?bar" by (simp add: bar_aligned)
  have push: "list_all2 tokAligned (?mel @ [midiToAbc midi] @ ?bar)
      (?har @ [midiToAbc (hMidi midi)] @ ?bar)"
    using a bar note_tokens_aligned [of midi "[]" "hMidi midi" "[]"]
    by (intro list_all2_appendI) simp_all
  have merge: "list_all2 tokAligned (?mel[k := midiToAbc midi @ s] @ ?bar)
      (?har[k := midiToAbc (hMidi midi) @ t] @ ?bar)" for k s t
    using a bar note_tokens_aligned by (intro list_all2_appendI list_all2_update_cong)
  show ?thesis
  proof (cases "?mel = []")
    case True
    with push show ?thesis by (simp add: confirm_def Let_def aligned_def)
  next
    case False
    with len have "length ?mel - 1 < length ?har" by (cases ?mel) auto
    with push merge show ?thesis
      by (simp add: confirm_def Let_def aligned_def)
  qed
qed

lemma updatePitch_aligned:
  assumes "aligned (melodyBuffer st) (harmonyBuffer st)"
  shows "aligned (melodyBuffer (updatePitch q bc f2m frame st))
     (harmonyBuffer (updatePitch q bc f2m frame st))"
proof -
  obtain pitch clarity where f: "frame = (pitch, clarity)" by (cases frame)
  have c: "aligned (melodyBuffer (confirm q m (st\<lparr>stableFrames := n\<rparr>)))
      (harmonyBuffer (confirm q m (st\<lparr>stableFrames := n\<rparr>)))" for m n
    by (rule confirm_aligned) (simp add: assms)
  from c assms f show ?thesis
    by (simp add: updatePitch_def Let_def)
qed

lemma foldl_aligned:
  "aligned (melodyBuffer st) (harmonyBuffer st) \<Longrightarrow>
   aligned (melodyBuffer (foldl (\<lambda>st frame. updatePitch q bc f2m frame st) st frames))
     (harmonyBuffer (foldl (\<lambda>st frame. updatePitch q bc f2m frame st) st frames))"
proof (induction frames arbitrary: st)
  case Nil
  then show ?case by simp
next
  case (Cons frame frames)
  from Cons.IH [OF updatePitch_aligned [OF Cons.prems]] show ?case by simp
qed

lemma runFrames_aligned:
  "aligned (melodyBuffer (runFrames q bc f2m frames)) (harmonyBuffer (runFrames q bc f2m frames))"
  unfolding runFrames_def by (rule foldl_aligned) (simp add: rtInit_def aligned_def)

text \<open>
  C10. For every grid and every raw slice sequence the two token sequences of the offline
  encoder, and after every frame of a recording session the two buffers of the real-time
  stabilizer, have the same length, hold a bar marker at the same indices and hold a
  rest at the same indices.
\<close>

theorem token_sequences_aligned:
  "aligned (fst (encodeGrid qValue g)) (snd (encodeGrid qValue g))
   \<and> aligned (fst (quantizeWith silent key spg qValue rawNotes))
       (snd (quantizeWith silent key spg qValue rawNotes))
   \<and> aligned (fst (quantizeMelody rawNotes sampleRate sliceSize key qValue sensitivity))
       (snd (quantizeMelody rawNotes sampleRate sliceSize key qValue sensitivity))
   \<and> aligned (melodyBuffer (runFrames qValue baseClarity f2m frames))
       (harmonyBuffer (runFrames qValue baseClarity f2m frames))
   \<and> (aligned mel har \<longleftrightarrow>
        length mel = length har
        \<and> (\<forall>i < length mel. ((mel ! i = ''|'') = (har ! i = ''|''))
              \<and> (isRest (mel ! i) = isRest (har ! i))))"
  using encodeGrid_aligned runFrames_aligned aligned_iff [of mel har]
  by (simp add: quantizeMelody_def quantizeWith_def)

theorem token_sequences_aligned_witness:
  "aligned (fst (encodeGrid 8 [Some 60, None, None])) (snd (encodeGrid 8 [Some 60, None, None]))
   \<and> encodeGrid 8 [Some 60, None, None] = ([''C'', ''z2''], [''C,'', ''z2''])
   \<and> aligned (melodyBuffer (runFrames 8 (19 / 20) freqToMidiTested (replicate 14 (440, 1))))
        (harmonyBuffer (runFrames 8 (19 / 20) freqToMidiTested (replicate 14 (440, 1))))
   \<and> melodyBuffer (runFrames 8 (19 / 20) freqToMidiTested (replicate 14 (440, 1))) = [''A2'']
   \<and> harmonyBuffer (runFrames 8 (19 / 20) freqToMidiTested (replicate 14 (440, 1))) = [''A,,2'']"
proof -
  have e: "encodeGrid 8 [Some 60, None, None] = ([''C'', ''z2''], [''C,'', ''z2''])"
    by code_simp
  have m: "melodyBuffer (runFrames 8 (19 / 20) freqToMidiTested (replicate 14 (440, 1))) = [''A2'']"
    by code_simp
  have h: "harmonyBuffer (runFrames 8 (19 / 20) freqToMidiTested (replicate 14 (440, 1))) = [''A,,2'']"
    by code_simp
  from token_sequences_aligned [where qValue = 8 and g = "[Some 60, None, None]"
      and baseClarity = "19 / 20" and ?f2m = freqToMidiTested and frames = "replicate 14 (440, 1)"]
  have "aligned (fst (encodeGrid 8 [Some 60, None, None])) (snd (encodeGrid 8 [Some 60, None, None]))
     \<and> aligned (melodyBuffer (runFrames 8 (19 / 20) freqToMidiTested (replicate 14 (440, 1))))
        (harmonyBuffer (runFrames 8 (19 / 20) freqToMidiTested (replicate 14 (440, 1))))"
    by blast
  with e m h show ?thesis by (intro conjI) simp_all
qed

text \<open>The whole offline path on a short recording: the gap after the first note is
  filled, the two trailing silent cells stay a rest.\<close>

lemma quantizeWith_example:
  "quantizeWith (isSilent (1 / 2)) ''C'' 1 8
     [Some 60, Some 60, Some 60, None, Some 64, Some 64, None, None]
   = ([''C4'', ''E2'', ''z2''], [''C,4'', ''E,2'', ''z2''])"
  by code_simp

section \<open>Silent frames of the real-time stabilizer\<close>

text \<open>
  A frame whose frequency is outside [85,1200] Hz or whose clarity is strictly below the
  threshold resets the last pitch, the stable-frame counter and the continuity flag and
  changes nothing else: the melody and harmony buffers, the grid-unit counter and the
  recorded pitches are as before, also at the end of any session.
\<close>

lemma updatePitch_silent_frame:
  assumes "pitch < 85 \<or> pitch > 1200 \<or> clarity < baseClarity"
  shows "updatePitch qValue baseClarity f2m (pitch, clarity) st
           = st\<lparr>lastMidi := None, stableFrames := 0, isContinuous := False\<rparr>
       \<and> melodyBuffer (updatePitch qValue baseClarity f2m (pitch, clarity) st) = melodyBuffer st
       \<and> harmonyBuffer (updatePitch qValue baseClarity f2m (pitch, clarity) st) = harmonyBuffer st
       \<and> melodyBuffer (runFrames qValue baseClarity f2m (frames @ [(pitch, clarity)]))
           = melodyBuffer (runFrames qValue baseClarity f2m frames)
       \<and> harmonyBuffer (runFrames qValue baseClarity f2m (frames @ [(pitch, clarity)]))
           = harmonyBuffer (runFrames qValue baseClarity f2m frames)
       \<and> lastMidi (runFrames qValue baseClarity f2m (frames @ [(pitch, clarity)])) = None
       \<and> stableFrames (runFrames qValue baseClarity f2m (frames @ [(pitch, clarity)])) = 0
       \<and> \<not> isContinuous (runFrames qValue baseClarity f2m (frames @ [(pitch, clarity)]))"
proof -
  have step: "updatePitch qValue baseClarity f2m (pitch, clarity) s
      = s\<lparr>lastMidi := None, stableFrames := 0, isContinuous := False\<rparr>" for s
    using assms by (simp add: updatePitch_def)
  have run: "runFrames qValue baseClarity f2m (frames @ [(pitch, clarity)])
      = updatePitch qValue baseClarity f2m (pitch, clarity) (runFrames qValue baseClarity f2m frames)"
    by (simp add: runFrames_def)
  show ?thesis unfolding run step by simp
qed

text \<open>
  C9 does not hold of the code. The claim, \<^verbatim>\<open>analyzeFile\<close> and the earlier variants of
  \<^verbatim>\<open>updatePitch\<close> take a frame for a pitch only when its clarity is above the threshold
  (\<^verbatim>\<open>clarity > baseClarity\<close>); the buffer-synced \<^verbatim>\<open>updatePitch\<close> tests
  \<^verbatim>\<open>clarity < baseClarity\<close> for silence, so a frame whose clarity equals the threshold is
  a pitch there. Seven frames at 440 Hz with clarity 0.95 at threshold 0.95: the clarity
  is not above the threshold and \<^verbatim>\<open>analyzeFile\<close> records silence for such a frame, but
  the seventh frame keeps the last pitch and the continuity flag and writes a token to
  both buffers, which were empty after six frames.
\<close>

theorem threshold_frame_taken_for_pitch:
  "\<not> ((19 / 20 :: real) > 19 / 20)
   \<and> rawSlice (19 / 20) freqToMidiTested (440, 19 / 20) = None
   \<and> melodyBuffer (runFrames 8 (19 / 20) freqToMidiTested (replicate 6 (440, 19 / 20))) = []
   \<and> harmonyBuffer (runFrames 8 (19 / 20) freqToMidiTested (replicate 6 (440, 19 / 20))) = []
   \<and> melodyBuffer (updatePitch 8 (19 / 20) freqToMidiTested (440, 19 / 20)
        (runFrames 8 (19 / 20) freqToMidiTested (replicate 6 (440, 19 / 20)))) = [''A'']
   \<and> harmonyBuffer (updatePitch 8 (19 / 20) freqToMidiTested (440, 19 / 20)
        (runFrames 8 (19 / 20) freqToMidiTested (replicate 6 (440, 19 / 20)))) = [''A,,'']
   \<and> lastMidi (updatePitch 8 (19 / 20) freqToMidiTested (440, 19 / 20)
        (runFrames 8 (19 / 20) freqToMidiTested (replicate 6 (440, 19 / 20)))) = Some 69
   \<and> isContinuous (updatePitch 8 (19 / 20) freqToMidiTested (440, 19 / 20)
        (runFrames 8 (19 / 20) freqToMidiTested (replicate 6 (440, 19 / 20))))"
  by code_simp

end
